theory Spec2Isabelle
  imports Main "HOL-Library.Word"
begin

unbundle bit_operations_syntax

section \<open>The cache simulator csim.c\<close>

text \<open>
  A shallow embedding of \<^verbatim>\<open>src/csim.c\<close>. The global variables of the program are the
  fields of one record that every function takes and returns. The platform is taken to be
  LP64 (the lab's x86-64 Linux): \<^verbatim>\<open>unsigned long long\<close> and \<^verbatim>\<open>unsigned long\<close> are
  64 bits, \<^verbatim>\<open>unsigned int\<close> is 32 bits, \<^verbatim>\<open>int\<close> is a 32-bit signed integer.
  Behaviour that C leaves undefined (a shift count outside the width, a read outside an
  array) is the value \<open>None\<close>. \<^verbatim>\<open>fopen\<close> is taken to succeed, and
  \<^verbatim>\<open>malloc\<close> wherever the block it returns is read or written.
\<close>

subsection \<open>Types (lines 19-49)\<close>

type_synonym addr_t = "64 word"

text \<open>\<^verbatim>\<open>valid\<close> is a \<^verbatim>\<open>short\<close> that the program only ever sets to 0 or 1 and only
  tests for being non-zero: a boolean.\<close>

record line_t =
  valid :: bool
  tag :: addr_t
  lru :: "64 word"

type_synonym set_t = "line_t list"

type_synonym cache_t = "set_t list"

record stats_t =
  hits :: "32 word"
  misses :: "32 word"
  evictions :: "32 word"
  lru_count :: "64 word"

record args_t =
  verbose :: int
  idx_bits :: int
  assoc :: int
  block_bits :: int

subsection \<open>Global variables (lines 52-58)\<close>

record globals =
  cache :: cache_t
  args :: args_t
  stats :: stats_t
  num_sets :: int
  block_size :: int
  t_addr :: "string option"

text \<open>Objects with static storage duration start zeroed; \<^verbatim>\<open>cache\<close> is a null pointer
  (no sets) and \<^verbatim>\<open>t_addr\<close> is \<^verbatim>\<open>NULL\<close>.\<close>

definition globals0 :: globals where
  "globals0 =
     \<lparr>cache = [],
      args = \<lparr>verbose = 0, idx_bits = 0, assoc = 0, block_bits = 0\<rparr>,
      stats = \<lparr>hits = 0, misses = 0, evictions = 0, lru_count = 0\<rparr>,
      num_sets = 0, block_size = 0, t_addr = None\<rparr>"

subsection \<open>init (lines 63-74)\<close>

definition empty_line :: line_t where
  "empty_line = \<lparr>valid = False, tag = 0, lru = 0\<rparr>"

text \<open>\<^verbatim>\<open>num_sets\<close> sets of \<^verbatim>\<open>args.assoc\<close> lines each, every field 0. Neither loop runs
  for a count that is not positive: a set then has no line that may be read.\<close>

definition init :: "globals \<Rightarrow> globals" where
  "init g =
     g\<lparr>cache := replicate (nat (num_sets g)) (replicate (nat (assoc (args g))) empty_line)\<rparr>"

subsection \<open>evict (lines 81-98)\<close>

definition ULONG_MAX :: "64 word" where
  "ULONG_MAX = 0xFFFFFFFFFFFFFFFF"

text \<open>The loop of lines 84-89: \<open>E\<close> is \<^verbatim>\<open>args.assoc\<close>, the pair is
  \<^verbatim>\<open>(evict_at, lru)\<close>.\<close>

definition evict_step :: "set_t \<Rightarrow> nat \<Rightarrow> nat \<times> 64 word \<Rightarrow> nat \<times> 64 word" where
  "evict_step set' line p =
     (if snd p > lru (set' ! line) then (line, lru (set' ! line)) else p)"

definition evict_loop :: "nat \<Rightarrow> set_t \<Rightarrow> nat \<times> 64 word" where
  "evict_loop E set' = fold (evict_step set') [0..<E] (0, ULONG_MAX)"

definition evict_at :: "nat \<Rightarrow> set_t \<Rightarrow> nat" where
  "evict_at E set' = fst (evict_loop E set')"

text \<open>\<^verbatim>\<open>evict(set, tag)\<close>. The C function receives a pointer to the set inside the
  cache; here the set is named by its index \<open>si\<close> in the cache, and the write goes to
  that set of the cache.\<close>

definition evict :: "globals \<Rightarrow> nat \<Rightarrow> addr_t \<Rightarrow> globals option" where
  "evict g si tg =
     (if length (cache g) \<le> si then None
      else
        let set' = cache g ! si;
            E = nat (assoc (args g))
        in if length set' < E then None
           else
             let at = evict_at E set'
             in if length set' \<le> at then None
                else
                  let st = stats g;
                      st1 = (if valid (set' ! at)
                             then st\<lparr>evictions := evictions st + 1\<rparr> else st);
                      ln = \<lparr>valid = True, tag = tg, lru = lru_count st1\<rparr>;
                      st2 = st1\<lparr>lru_count := lru_count st1 + 1\<rparr>
                  in Some (g\<lparr>cache := (cache g)[si := set'[at := ln]], stats := st2\<rparr>))"

subsection \<open>getData (lines 105-121)\<close>

text \<open>Line 106 and line 107: the tag and the index of the set. \<^verbatim>\<open>num_sets - 1\<close> is an
  \<^verbatim>\<open>int\<close>, converted to the 64-bit unsigned type of the other operand.\<close>

definition tag_of :: "globals \<Rightarrow> addr_t \<Rightarrow> addr_t" where
  "tag_of g addr = drop_bit (nat (block_bits (args g) + idx_bits (args g))) addr"

definition set_of :: "globals \<Rightarrow> addr_t \<Rightarrow> nat" where
  "set_of g addr =
     unat (drop_bit (nat (block_bits (args g))) addr AND word_of_int (num_sets g - 1))"

text \<open>A right shift of a 64-bit value is defined for counts from 0 to 63.\<close>

definition shifts_defined :: "globals \<Rightarrow> bool" where
  "shifts_defined g \<longleftrightarrow>
     0 \<le> block_bits (args g) \<and> block_bits (args g) < 64 \<and>
     0 \<le> block_bits (args g) + idx_bits (args g) \<and>
     block_bits (args g) + idx_bits (args g) < 64"

text \<open>The loop of lines 109-117 returns at the first line that is valid and holds the
  tag.\<close>

definition hit_line :: "nat \<Rightarrow> set_t \<Rightarrow> addr_t \<Rightarrow> nat option" where
  "hit_line E set' tg = find (\<lambda>line. valid (set' ! line) \<and> tag (set' ! line) = tg) [0..<E]"

definition getData :: "globals \<Rightarrow> addr_t \<Rightarrow> globals option" where
  "getData g addr =
     (if \<not> shifts_defined g then None
      else
        let tg = tag_of g addr;
            si = set_of g addr
        in if length (cache g) \<le> si then None
           else
             let set' = cache g ! si;
                 E = nat (assoc (args g))
             in if length set' < E then None
                else
                  (case hit_line E set' tg of
                     Some line \<Rightarrow>
                       let st = stats g
                       in Some (g\<lparr>cache := (cache g)[si := set'[line := (set' ! line)\<lparr>lru := lru_count st\<rparr>]],
                                  stats := st\<lparr>lru_count := lru_count st + 1, hits := hits st + 1\<rparr>\<rparr>)
                   | None \<Rightarrow>
                       evict (g\<lparr>stats := (stats g)\<lparr>misses := misses (stats g) + 1\<rparr>\<rparr>) si tg))"

subsection \<open>runTraceSim (lines 127-149)\<close>

text \<open>The trace file is read by \<^verbatim>\<open>fscanf(trace, " %c %llx,%d", ...)\<close>, a function of the C
  library. The file is modelled as the list of results of the successive calls, not as a
  list of lines: \<open>Matched operation addr size\<close> is a call in which all three conversions
  succeed (it returns 3), \<open>Unmatched\<close> a call in which fewer succeed (it returns less than
  3). At the end of the list the file is at its end and the call returns \<^verbatim>\<open>EOF\<close>. The
  loop runs while the call returns 3, so what follows an \<open>Unmatched\<close> in the list is what
  further calls would have returned, and is never read.

  Calls and lines of the file are not the same thing. The format skips white space, newlines
  included, before each of its three conversions: a blank line belongs to the call that reads
  the record after it, a record may be spread over two lines, and a line such as
  \<^verbatim>\<open>L 0,1xyz\<close> is a call that returns 3 followed by a call that does not.\<close>

datatype scan = Matched char addr_t int | Unmatched

text \<open>The \<^verbatim>\<open>switch\<close> of lines 134-146.\<close>

definition switch_op :: "globals \<Rightarrow> char \<Rightarrow> addr_t \<Rightarrow> globals option" where
  "switch_op g operation addr =
     (if operation = CHR ''L'' then getData g addr
      else if operation = CHR ''S'' then getData g addr
      else if operation = CHR ''M'' then
        (case getData g addr of None \<Rightarrow> None | Some g1 \<Rightarrow> getData g1 addr)
      else Some g)"

fun runTraceSim :: "globals \<Rightarrow> scan list \<Rightarrow> globals option" where
  "runTraceSim g [] = Some g"
| "runTraceSim g (Unmatched # rest) = Some g"
| "runTraceSim g (Matched operation addr sz # rest) =
     (case switch_op g operation addr of
        None \<Rightarrow> None
      | Some g1 \<Rightarrow> runTraceSim g1 rest)"

subsection \<open>help and main (lines 154-223)\<close>

text \<open>What the program prints, and how it ends: with an exit status, or in undefined
  behaviour. \<^verbatim>\<open>help\<close> (here \<open>help_usage\<close>) prints the usage text after what was printed
  before, and calls \<^verbatim>\<open>exit(0)\<close> itself: a statement after a call of \<^verbatim>\<open>help\<close> is never
  reached.\<close>

datatype out = Missing_argument | Usage | Summary "32 word" "32 word" "32 word"

datatype ending = Exited int "out list" | Undefined

definition help_usage :: "out list \<Rightarrow> ending" where
  "help_usage printed = Exited 0 (printed @ [Usage])"

text \<open>The options as \<^verbatim>\<open>getopt\<close> returns them, with the value \<^verbatim>\<open>atoi\<close> gives for the
  argument of \<^verbatim>\<open>-s\<close>, \<^verbatim>\<open>-E\<close> and \<^verbatim>\<open>-b\<close>; \<open>Opt_other\<close> is the \<^verbatim>\<open>default\<close> case.\<close>

datatype opt = Opt_s int | Opt_E int | Opt_b int | Opt_t string | Opt_v | Opt_h | Opt_other

fun getopt_loop :: "globals \<Rightarrow> opt list \<Rightarrow> ending + globals" where
  "getopt_loop g [] = Inr g"
| "getopt_loop g (Opt_s n # os) = getopt_loop (g\<lparr>args := (args g)\<lparr>idx_bits := n\<rparr>\<rparr>) os"
| "getopt_loop g (Opt_E n # os) = getopt_loop (g\<lparr>args := (args g)\<lparr>assoc := n\<rparr>\<rparr>) os"
| "getopt_loop g (Opt_b n # os) = getopt_loop (g\<lparr>args := (args g)\<lparr>block_bits := n\<rparr>\<rparr>) os"
| "getopt_loop g (Opt_t f # os) = getopt_loop (g\<lparr>t_addr := Some f\<rparr>) os"
| "getopt_loop g (Opt_v # os) = getopt_loop (g\<lparr>args := (args g)\<lparr>verbose := 1\<rparr>\<rparr>) os"
| "getopt_loop g (Opt_h # os) = Inl (help_usage [])"
| "getopt_loop g (Opt_other # os) = Inl (help_usage [])"

text \<open>\<^verbatim>\<open>1 << n\<close> on \<^verbatim>\<open>int\<close> is defined for \<open>0 \<le> n \<le> 30\<close>.\<close>

definition shl1 :: "int \<Rightarrow> int option" where
  "shl1 n = (if 0 \<le> n \<and> n \<le> 30 then Some (2 ^ nat n) else None)"

definition required_args_missing :: "globals \<Rightarrow> bool" where
  "required_args_missing g \<longleftrightarrow>
     idx_bits (args g) = 0 \<or> assoc (args g) = 0 \<or> block_bits (args g) = 0 \<or> t_addr g = None"

text \<open>\<^verbatim>\<open>main\<close>, given the options of the command line and the contents of the trace
  file.\<close>

definition main :: "opt list \<Rightarrow> scan list \<Rightarrow> ending" where
  "main opts trace =
     (case getopt_loop globals0 opts of
        Inl e \<Rightarrow> e
      | Inr g \<Rightarrow>
          if required_args_missing g then help_usage [Missing_argument]
          else
            (case shl1 (idx_bits (args g)) of
               None \<Rightarrow> Undefined
             | Some ns \<Rightarrow>
                 (case shl1 (block_bits (args g)) of
                    None \<Rightarrow> Undefined
                  | Some bs \<Rightarrow>
                      (case runTraceSim (init (g\<lparr>num_sets := ns, block_size := bs\<rparr>)) trace of
                         None \<Rightarrow> Undefined
                       | Some g1 \<Rightarrow>
                           Exited 0 [Summary (hits (stats g1)) (misses (stats g1))
                                             (evictions (stats g1))]))))"

section \<open>Notions used in the statements\<close>

text \<open>The number of lines of a set, \<^verbatim>\<open>args.assoc\<close> as a loop bound.\<close>

definition ways :: "globals \<Rightarrow> nat" where
  "ways g = nat (assoc (args g))"

text \<open>The states in which the program runs without undefined behaviour: the shifts of
  \<^verbatim>\<open>getData\<close> are defined, \<^verbatim>\<open>args.assoc\<close> is a positive \<^verbatim>\<open>int\<close>,
  \<^verbatim>\<open>num_sets\<close> is \<^verbatim>\<open>1 << args.idx_bits\<close> computed without overflow, and the cache has
  the shape \<^verbatim>\<open>init\<close> gave it.\<close>

definition well_formed :: "globals \<Rightarrow> bool" where
  "well_formed g \<longleftrightarrow>
     shifts_defined g \<and>
     0 < assoc (args g) \<and> assoc (args g) \<le> 2147483647 \<and>
     0 \<le> idx_bits (args g) \<and> idx_bits (args g) \<le> 30 \<and>
     num_sets g = 2 ^ nat (idx_bits (args g)) \<and>
     length (cache g) = nat (num_sets g) \<and>
     list_all (\<lambda>S. length S = ways g) (cache g)"

text \<open>Whether \<^verbatim>\<open>getData\<close> finds the address in the cache, and the line it stamps: the
  line found, or the line \<^verbatim>\<open>evict\<close> chooses.\<close>

definition is_hit :: "globals \<Rightarrow> addr_t \<Rightarrow> bool" where
  "is_hit g addr \<longleftrightarrow> hit_line (ways g) (cache g ! set_of g addr) (tag_of g addr) \<noteq> None"

definition touched :: "globals \<Rightarrow> addr_t \<Rightarrow> nat" where
  "touched g addr =
     (case hit_line (ways g) (cache g ! set_of g addr) (tag_of g addr) of
        Some line \<Rightarrow> line
      | None \<Rightarrow> evict_at (ways g) (cache g ! set_of g addr))"

text \<open>The state in which \<^verbatim>\<open>main\<close> calls \<^verbatim>\<open>runTraceSim\<close> for the options
  \<^verbatim>\<open>-s s -E e -b b\<close>: the cache as \<^verbatim>\<open>init\<close> builds it, the counters zero.\<close>

definition start :: "int \<Rightarrow> int \<Rightarrow> int \<Rightarrow> globals" where
  "start s e b =
     init (globals0\<lparr>args := \<lparr>verbose = 0, idx_bits = s, assoc = e, block_bits = b\<rparr>,
                    num_sets := 2 ^ nat s, block_size := 2 ^ nat b\<rparr>)"

text \<open>A cache with no valid line.\<close>

definition all_invalid :: "globals \<Rightarrow> bool" where
  "all_invalid g \<longleftrightarrow> list_all (list_all (\<lambda>ln. \<not> valid ln)) (cache g)"

text \<open>The three outcomes of an access. \<^verbatim>\<open>getData\<close> returns nothing; the outcome is
  read off the branch it takes: the lookup loop finds the tag, or it does not and the line
  \<^verbatim>\<open>evict\<close> chooses is valid, or is not. \<open>updated_as\<close> is the update of the counters
  that goes with each outcome.\<close>

datatype Outcome = Hit | MissNoEvict | MissWithEvict

definition outcome :: "globals \<Rightarrow> addr_t \<Rightarrow> Outcome" where
  "outcome g addr =
     (if is_hit g addr then Hit
      else if valid (cache g ! set_of g addr ! touched g addr) then MissWithEvict
      else MissNoEvict)"

fun updated_as :: "Outcome \<Rightarrow> stats_t \<Rightarrow> stats_t \<Rightarrow> bool" where
  "updated_as Hit st st' \<longleftrightarrow>
     hits st' = hits st + 1 \<and> misses st' = misses st \<and> evictions st' = evictions st"
| "updated_as MissNoEvict st st' \<longleftrightarrow>
     hits st' = hits st \<and> misses st' = misses st + 1 \<and> evictions st' = evictions st"
| "updated_as MissWithEvict st st' \<longleftrightarrow>
     hits st' = hits st \<and> misses st' = misses st + 1 \<and> evictions st' = evictions st + 1"

text \<open>The address decomposition in the words of the specification: the set index is
  \<open>(address >> block_bits) mod num_sets\<close>, the tag is
  \<open>address >> (block_bits + index_bits)\<close>, on the address as a natural number.\<close>

definition spec_set_index :: "nat \<Rightarrow> nat \<Rightarrow> nat \<Rightarrow> nat" where
  "spec_set_index block_bits' num_sets' address = (address div 2 ^ block_bits') mod num_sets'"

definition spec_tag :: "nat \<Rightarrow> nat \<Rightarrow> nat \<Rightarrow> nat" where
  "spec_tag block_bits' index_bits address = address div 2 ^ (block_bits' + index_bits)"

text \<open>The number of calls of \<^verbatim>\<open>getData\<close> that \<^verbatim>\<open>runTraceSim\<close> makes on a trace: one
  for \<^verbatim>\<open>L\<close> and \<^verbatim>\<open>S\<close>, two for \<^verbatim>\<open>M\<close>, none for another operation, up to the
  first call of \<^verbatim>\<open>fscanf\<close> that does not return 3.\<close>

fun n_access :: "scan list \<Rightarrow> nat" where
  "n_access [] = 0"
| "n_access (Unmatched # rest) = 0"
| "n_access (Matched operation addr sz # rest) =
     (if operation = CHR ''L'' \<or> operation = CHR ''S'' then 1
      else if operation = CHR ''M'' then 2 else 0) + n_access rest"

text \<open>The state after \<open>n\<close> further accesses to an address that is in the cache: the line
  holding it carries the stamp of the last of them.\<close>

definition after_hits :: "globals \<Rightarrow> addr_t \<Rightarrow> nat \<Rightarrow> globals" where
  "after_hits g addr n =
     (if n = 0 then g
      else g\<lparr>cache := (cache g)[set_of g addr := (cache g ! set_of g addr)
                 [touched g addr := \<lparr>valid = True, tag = tag_of g addr,
                                     lru = lru_count (stats g) + of_nat (n - 1)\<rparr>]],
             stats := (stats g)\<lparr>lru_count := lru_count (stats g) + of_nat n,
                                hits := hits (stats g) + of_nat n\<rparr>\<rparr>)"


text \<open>No two valid lines of a set hold the same tag.\<close>

definition no_dup_tags :: "globals \<Rightarrow> bool" where
  "no_dup_tags g \<longleftrightarrow> list_all (\<lambda>S. distinct (map tag (filter valid S))) (cache g)"

text \<open>The \<^verbatim>\<open>lru\<close> stamps of the valid lines of the whole cache, set by set; and the
  invariant of the clock: these stamps are pairwise distinct and all below
  \<^verbatim>\<open>stats.lru_count\<close>.\<close>

definition valid_stamps :: "globals \<Rightarrow> 64 word list" where
  "valid_stamps g = map lru (filter valid (concat (cache g)))"

definition clock_ahead :: "globals \<Rightarrow> bool" where
  "clock_ahead g \<longleftrightarrow>
     distinct (valid_stamps g) \<and> list_all (\<lambda>x. x < lru_count (stats g)) (valid_stamps g)"

definition lru_inv :: "globals \<Rightarrow> bool" where
  "lru_inv g \<longleftrightarrow> well_formed g \<and> no_dup_tags g \<and> clock_ahead g"

text \<open>A single set while it fills, for the tags \<open>ts\<close> accessed in order from the initial
  state: after the accesses to \<open>ts ! 0\<close>, ..., \<open>ts ! k\<close> (with \<open>k\<close> at least 1) line \<open>j\<close>
  below \<open>k\<close> holds tag \<open>ts ! (j + 1)\<close> with stamp \<open>j + 1\<close>, the other lines are as
  \<^verbatim>\<open>init\<close> left them, and the clock is \<open>k + 1\<close>.\<close>

definition filled :: "addr_t list \<Rightarrow> nat \<Rightarrow> globals \<Rightarrow> bool" where
  "filled ts k g \<longleftrightarrow>
     cache g =
       [map (\<lambda>j. \<lparr>valid = True, tag = ts ! Suc j, lru = of_nat (Suc j)\<rparr>) [0..<k] @
        replicate (ways g - k) empty_line] \<and>
     lru_count (stats g) = of_nat (Suc k)"

section \<open>Properties\<close>

subsection \<open>The victim scan\<close>

lemma ULONG_MAX_top: "x \<le> ULONG_MAX"
proof -
  have h: "ULONG_MAX = - 1" by (simp add: ULONG_MAX_def)
  show ?thesis unfolding h by (rule word_n1_ge)
qed

lemma evict_loop_Suc: "evict_loop (Suc n) S = evict_step S n (evict_loop n S)"
  by (simp add: evict_loop_def)

lemma evict_loop_0: "evict_loop 0 S = (0, ULONG_MAX)"
  by (simp add: evict_loop_def)

lemma evict_loop_inv:
  "(\<forall>j<n. snd (evict_loop n S) \<le> lru (S ! j)) \<and>
   ((fst (evict_loop n S) < n \<and> snd (evict_loop n S) = lru (S ! fst (evict_loop n S)) \<and>
     (\<forall>j<fst (evict_loop n S). snd (evict_loop n S) < lru (S ! j))) \<or>
    (fst (evict_loop n S) = 0 \<and> snd (evict_loop n S) = ULONG_MAX \<and>
     (\<forall>j<n. lru (S ! j) = ULONG_MAX)))"
proof (induction n)
  case 0
  show ?case by (simp add: evict_loop_0)
next
  case (Suc n)
  obtain a m where p: "evict_loop n S = (a, m)" by (cases "evict_loop n S")
  show ?case
  proof (cases "lru (S ! n) < m")
    case True
    then have e: "evict_loop (Suc n) S = (n, lru (S ! n))"
      by (simp add: evict_loop_Suc p evict_step_def)
    from Suc True p show ?thesis
      unfolding e by (auto simp: less_Suc_eq)
  next
    case False
    then have e: "evict_loop (Suc n) S = (a, m)"
      by (simp add: evict_loop_Suc p evict_step_def)
    have "m = ULONG_MAX \<Longrightarrow> lru (S ! n) = ULONG_MAX"
      using False ULONG_MAX_top [of "lru (S ! n)"] by auto
    with Suc False p show ?thesis
      unfolding e by (auto simp: less_Suc_eq)
  qed
qed

lemma evict_at_less: "0 < n \<Longrightarrow> evict_at n S < n"
  using evict_loop_inv [of n S] by (auto simp: evict_at_def)

lemma evict_at_min: "j < n \<Longrightarrow> lru (S ! evict_at n S) \<le> lru (S ! j)"
  using evict_loop_inv [of n S] by (auto simp: evict_at_def)

lemma evict_at_first: "j < evict_at n S \<Longrightarrow> lru (S ! evict_at n S) < lru (S ! j)"
  using evict_loop_inv [of n S] by (auto simp: evict_at_def)

lemma evict_at_unique:
  assumes "i < n" and "\<forall>j<n. lru (S ! i) \<le> lru (S ! j)" and "\<forall>j<i. lru (S ! i) < lru (S ! j)"
  shows "evict_at n S = i"
proof -
  let ?a = "evict_at n S"
  have an: "?a < n" using assms(1) by (intro evict_at_less) simp
  have "\<not> ?a < i"
    using assms(3) evict_at_min [OF assms(1), of S] by (auto simp: not_less [symmetric])
  moreover have "\<not> i < ?a"
    using evict_at_first [of i n S] assms(2) an by (auto simp: not_less [symmetric])
  ultimately show ?thesis by simp
qed

lemma set_of_eq:
  assumes "0 \<le> idx_bits (args g)" "idx_bits (args g) \<le> 30"
    and "num_sets g = 2 ^ nat (idx_bits (args g))"
  shows "set_of g addr = (unat addr div 2 ^ nat (block_bits (args g))) mod 2 ^ nat (idx_bits (args g))"
proof -
  have "(word_of_int (num_sets g - 1) :: 64 word) = mask (nat (idx_bits (args g)))"
    by (simp add: assms(3) mask_eq_decr_exp)
  then have "set_of g addr =
      unat (take_bit (nat (idx_bits (args g))) (drop_bit (nat (block_bits (args g))) addr))"
    by (simp add: set_of_def take_bit_eq_mask)
  also have "\<dots> = take_bit (nat (idx_bits (args g))) (drop_bit (nat (block_bits (args g))) (unat addr))"
    by (simp only: unsigned_take_bit_eq unat_drop_bit_eq)
  also have "\<dots> = (unat addr div 2 ^ nat (block_bits (args g))) mod 2 ^ nat (idx_bits (args g))"
    by (simp only: take_bit_nat_def drop_bit_nat_def)
  finally show ?thesis .
qed

lemma set_of_less:
  assumes "well_formed g"
  shows "set_of g addr < length (cache g)"
proof -
  have "set_of g addr < 2 ^ nat (idx_bits (args g))"
    using assms by (subst set_of_eq) (auto simp: well_formed_def)
  moreover have "length (cache g) = 2 ^ nat (idx_bits (args g))"
    using assms by (simp add: well_formed_def)
  ultimately show ?thesis by simp
qed

lemma hit_line_Some:
  "hit_line E S tg = Some l \<longleftrightarrow>
     l < E \<and> valid (S ! l) \<and> tag (S ! l) = tg \<and> (\<forall>j<l. \<not> (valid (S ! j) \<and> tag (S ! j) = tg))"
  by (auto simp: hit_line_def find_Some_iff)

lemma hit_line_None:
  "hit_line E S tg = None \<longleftrightarrow> (\<forall>j<E. \<not> (valid (S ! j) \<and> tag (S ! j) = tg))"
  by (auto simp: hit_line_def find_None_iff)

subsection \<open>What one call of getData does\<close>

lemma well_formed_set_length:
  "well_formed g \<Longrightarrow> si < length (cache g) \<Longrightarrow> length (cache g ! si) = ways g"
  by (simp add: well_formed_def list_all_length)

lemma well_formed_ways: "well_formed g \<Longrightarrow> 0 < ways g"
  by (simp add: well_formed_def ways_def)

lemma getData_hit:
  assumes wf: "well_formed g"
    and h: "hit_line (ways g) (cache g ! set_of g addr) (tag_of g addr) = Some l"
  shows "getData g addr =
     Some (g\<lparr>cache := (cache g)[set_of g addr := (cache g ! set_of g addr)
                 [l := \<lparr>valid = True, tag = tag_of g addr, lru = lru_count (stats g)\<rparr>]],
             stats := (stats g)\<lparr>lru_count := lru_count (stats g) + 1,
                                hits := hits (stats g) + 1\<rparr>\<rparr>)"
proof -
  have si: "set_of g addr < length (cache g)" by (rule set_of_less [OF wf])
  have len: "length (cache g ! set_of g addr) = ways g"
    by (rule well_formed_set_length [OF wf si])
  have sd: "shifts_defined g" using wf by (simp add: well_formed_def)
  from h have "valid (cache g ! set_of g addr ! l)" "tag (cache g ! set_of g addr ! l) = tag_of g addr"
    by (simp_all add: hit_line_Some)
  then have ln: "(cache g ! set_of g addr ! l)\<lparr>lru := lru_count (stats g)\<rparr> =
      \<lparr>valid = True, tag = tag_of g addr, lru = lru_count (stats g)\<rparr>"
    by simp
  show ?thesis
    using si len sd h ln by (simp add: getData_def Let_def ways_def)
qed

lemma getData_miss:
  assumes wf: "well_formed g"
    and h: "hit_line (ways g) (cache g ! set_of g addr) (tag_of g addr) = None"
  shows "getData g addr =
     Some (g\<lparr>cache := (cache g)[set_of g addr := (cache g ! set_of g addr)
                 [evict_at (ways g) (cache g ! set_of g addr) :=
                    \<lparr>valid = True, tag = tag_of g addr, lru = lru_count (stats g)\<rparr>]],
             stats := (stats g)\<lparr>misses := misses (stats g) + 1,
                evictions := (if valid (cache g ! set_of g addr ! evict_at (ways g) (cache g ! set_of g addr))
                              then evictions (stats g) + 1 else evictions (stats g)),
                lru_count := lru_count (stats g) + 1\<rparr>\<rparr>)"
proof -
  have si: "set_of g addr < length (cache g)" by (rule set_of_less [OF wf])
  have len: "length (cache g ! set_of g addr) = ways g"
    by (rule well_formed_set_length [OF wf si])
  have sd: "shifts_defined g" using wf by (simp add: well_formed_def)
  have at: "evict_at (ways g) (cache g ! set_of g addr) < ways g"
    by (rule evict_at_less [OF well_formed_ways [OF wf]])
  show ?thesis
    using si len sd h at by (simp add: getData_def evict_def Let_def ways_def)
qed

lemma touched_less: "well_formed g \<Longrightarrow> touched g addr < ways g"
  by (auto simp: touched_def hit_line_Some evict_at_less well_formed_ways split: option.splits)

lemma well_formed_update:
  assumes "well_formed g" "si < length (cache g)"
    and "args g' = args g" "num_sets g' = num_sets g"
    and "cache g' = (cache g)[si := (cache g ! si)[l := ln]]"
  shows "well_formed g'"
proof -
  have "list_all (\<lambda>S. length S = ways g) ((cache g)[si := (cache g ! si)[l := ln]])"
    using assms(1,2) by (auto simp: well_formed_def list_all_length nth_list_update)
  then show ?thesis
    using assms by (simp add: well_formed_def shifts_defined_def ways_def)
qed

lemma getData_effect:
  assumes wf: "well_formed g"
  shows "\<exists>g'. getData g addr = Some g' \<and> well_formed g' \<and>
      args g' = args g \<and> num_sets g' = num_sets g \<and>
      cache g' = (cache g)[set_of g addr := (cache g ! set_of g addr)
         [touched g addr := \<lparr>valid = True, tag = tag_of g addr, lru = lru_count (stats g)\<rparr>]] \<and>
      lru_count (stats g') = lru_count (stats g) + 1 \<and>
      hits (stats g') = (if is_hit g addr then hits (stats g) + 1 else hits (stats g)) \<and>
      misses (stats g') = (if is_hit g addr then misses (stats g) else misses (stats g) + 1) \<and>
      evictions (stats g') =
        (if \<not> is_hit g addr \<and> valid (cache g ! set_of g addr ! touched g addr)
         then evictions (stats g) + 1 else evictions (stats g))"
proof (cases "hit_line (ways g) (cache g ! set_of g addr) (tag_of g addr)")
  case None
  let ?g' = "the (getData g addr)"
  have e: "getData g addr = Some ?g'" by (simp add: getData_miss [OF wf None])
  have t: "touched g addr = evict_at (ways g) (cache g ! set_of g addr)"
    by (simp add: touched_def None)
  have nh: "\<not> is_hit g addr" by (simp add: is_hit_def None)
  have c: "cache ?g' = (cache g)[set_of g addr := (cache g ! set_of g addr)
         [touched g addr := \<lparr>valid = True, tag = tag_of g addr, lru = lru_count (stats g)\<rparr>]]"
    by (simp add: getData_miss [OF wf None] t)
  have a: "args ?g' = args g" "num_sets ?g' = num_sets g"
    by (simp_all add: getData_miss [OF wf None])
  have w: "well_formed ?g'"
    by (rule well_formed_update [OF wf set_of_less [OF wf] a c])
  have s: "lru_count (stats ?g') = lru_count (stats g) + 1"
      "hits (stats ?g') = hits (stats g)" "misses (stats ?g') = misses (stats g) + 1"
      "evictions (stats ?g') = (if valid (cache g ! set_of g addr ! touched g addr)
         then evictions (stats g) + 1 else evictions (stats g))"
    by (simp_all add: getData_miss [OF wf None] t)
  show ?thesis
  proof (intro exI [of _ ?g'] conjI)
    show "getData g addr = Some ?g'" by (rule e)
  qed (simp_all only: w a c s nh if_True if_False simp_thms)
next
  case (Some l)
  let ?g' = "the (getData g addr)"
  have e: "getData g addr = Some ?g'" by (simp add: getData_hit [OF wf Some])
  have t: "touched g addr = l"
    by (simp add: touched_def Some)
  have ih: "is_hit g addr" by (simp add: is_hit_def Some)
  have c: "cache ?g' = (cache g)[set_of g addr := (cache g ! set_of g addr)
         [touched g addr := \<lparr>valid = True, tag = tag_of g addr, lru = lru_count (stats g)\<rparr>]]"
    by (simp add: getData_hit [OF wf Some] t)
  have a: "args ?g' = args g" "num_sets ?g' = num_sets g"
    by (simp_all add: getData_hit [OF wf Some])
  have w: "well_formed ?g'"
    by (rule well_formed_update [OF wf set_of_less [OF wf] a c])
  have s: "lru_count (stats ?g') = lru_count (stats g) + 1"
      "hits (stats ?g') = hits (stats g) + 1" "misses (stats ?g') = misses (stats g)"
      "evictions (stats ?g') = evictions (stats g)"
    by (simp_all add: getData_hit [OF wf Some])
  show ?thesis
  proof (intro exI [of _ ?g'] conjI)
    show "getData g addr = Some ?g'" by (rule e)
  qed (simp_all only: w a c s ih if_True if_False simp_thms)
qed

lemma getData_outcome:
  assumes "well_formed g"
  shows "\<exists>g'. getData g addr = Some g' \<and> well_formed g' \<and>
           lru_count (stats g') = lru_count (stats g) + 1 \<and>
           (\<forall>oc. updated_as oc (stats g) (stats g') \<longleftrightarrow> oc = outcome g addr)"
proof -
  from getData_effect [OF assms, of addr] obtain g' where
    g': "getData g addr = Some g'" "well_formed g'"
      "lru_count (stats g') = lru_count (stats g) + 1"
      "hits (stats g') = (if is_hit g addr then hits (stats g) + 1 else hits (stats g))"
      "misses (stats g') = (if is_hit g addr then misses (stats g) else misses (stats g) + 1)"
      "evictions (stats g') =
        (if \<not> is_hit g addr \<and> valid (cache g ! set_of g addr ! touched g addr)
         then evictions (stats g) + 1 else evictions (stats g))"
    by blast
  have "updated_as oc (stats g) (stats g') \<longleftrightarrow> oc = outcome g addr" for oc
    by (cases oc) (simp_all add: g' outcome_def)
  with g' show ?thesis by blast
qed

lemma start_well_formed:
  assumes "0 < e" "e \<le> 2147483647" "0 \<le> s" "s \<le> 30" "0 \<le> b" "b + s < 64"
  shows "well_formed (start s e b)"
  using assms
  by (auto simp: well_formed_def start_def init_def globals0_def shifts_defined_def ways_def
      list_all_length)

lemma same_geometry:
  assumes "args g' = args g" "num_sets g' = num_sets g"
  shows "set_of g' addr = set_of g addr" "tag_of g' addr = tag_of g addr" "ways g' = ways g"
  using assms by (simp_all add: set_of_def tag_of_def ways_def)

lemma is_hit_iff:
  "is_hit g addr \<longleftrightarrow>
     (\<exists>j<ways g. valid (cache g ! set_of g addr ! j) \<and> tag (cache g ! set_of g addr ! j) = tag_of g addr)"
  by (auto simp: is_hit_def hit_line_None)

lemma is_hit_after_getData:
  assumes wf: "well_formed g" and g1: "getData g addr = Some g1"
  shows "is_hit g1 addr"
proof -
  let ?si = "set_of g addr" and ?t = "touched g addr"
  let ?ln = "\<lparr>valid = True, tag = tag_of g addr, lru = lru_count (stats g)\<rparr>"
  from getData_effect [OF wf, of addr] g1 have
    a: "args g1 = args g" "num_sets g1 = num_sets g"
    and c: "cache g1 = (cache g)[?si := (cache g ! ?si)[?t := ?ln]]"
    by auto
  have si: "?si < length (cache g)" by (rule set_of_less [OF wf])
  have t: "?t < length (cache g ! ?si)"
    using touched_less [OF wf, of addr] well_formed_set_length [OF wf si] by simp
  have "cache g1 ! ?si ! ?t = ?ln"
    using si t by (simp add: c)
  then have "valid (cache g1 ! ?si ! ?t) \<and> tag (cache g1 ! ?si ! ?t) = tag_of g addr"
    by simp
  then show ?thesis
    unfolding is_hit_iff same_geometry [OF a] using touched_less [OF wf, of addr] by blast
qed

lemma all_invalid_nth:
  "all_invalid g \<Longrightarrow> si < length (cache g) \<Longrightarrow> j < length (cache g ! si) \<Longrightarrow>
     \<not> valid (cache g ! si ! j)"
  by (simp add: all_invalid_def list_all_length)

lemma outcome_all_invalid:
  assumes wf: "well_formed g" and inv: "all_invalid g"
  shows "outcome g addr = MissNoEvict"
proof -
  have si: "set_of g addr < length (cache g)" by (rule set_of_less [OF wf])
  have len: "length (cache g ! set_of g addr) = ways g"
    by (rule well_formed_set_length [OF wf si])
  have "\<not> is_hit g addr"
    using all_invalid_nth [OF inv si] len by (auto simp: is_hit_iff)
  moreover have "\<not> valid (cache g ! set_of g addr ! touched g addr)"
    using all_invalid_nth [OF inv si] len touched_less [OF wf, of addr] by simp
  ultimately show ?thesis by (simp add: outcome_def)
qed

lemma start_all_invalid: "all_invalid (start s e b)"
  by (simp add: all_invalid_def start_def init_def list_all_length empty_line_def)


lemma start_1_2_1: "well_formed (start 1 2 1)"
  by (rule start_well_formed) simp_all

subsection \<open>The replay of one record\<close>

text \<open>
  C4. For a record that \<^verbatim>\<open>runTraceSim\<close> processes in a well-formed state: the operation
  \<^verbatim>\<open>L\<close> or \<^verbatim>\<open>S\<close> is one call of \<^verbatim>\<open>getData\<close>; \<^verbatim>\<open>M\<close> is two calls in sequence
  on the same address; any other operation character is no call and leaves the state as it
  is. Every call returns, and updates the counters in exactly one of three ways, the one of
  its outcome: a hit adds 1 to \<^verbatim>\<open>hits\<close>, a miss without eviction adds 1 to \<^verbatim>\<open>misses\<close>,
  a miss with eviction adds 1 to \<^verbatim>\<open>misses\<close> and to \<^verbatim>\<open>evictions\<close>.
\<close>

theorem replay_record_accesses:
  assumes "well_formed g"
  shows "(operation = CHR ''L'' \<or> operation = CHR ''S'' \<longrightarrow>
            switch_op g operation addr = getData g addr \<and>
            (\<exists>g1. getData g addr = Some g1 \<and>
               (\<forall>oc. updated_as oc (stats g) (stats g1) \<longleftrightarrow> oc = outcome g addr))) \<and>
         (operation = CHR ''M'' \<longrightarrow>
            (\<exists>g1 g2. getData g addr = Some g1 \<and> getData g1 addr = Some g2 \<and>
               switch_op g operation addr = Some g2 \<and>
               (\<forall>oc. updated_as oc (stats g) (stats g1) \<longleftrightarrow> oc = outcome g addr) \<and>
               (\<forall>oc. updated_as oc (stats g1) (stats g2) \<longleftrightarrow> oc = outcome g1 addr))) \<and>
         (operation \<noteq> CHR ''L'' \<and> operation \<noteq> CHR ''S'' \<and> operation \<noteq> CHR ''M'' \<longrightarrow>
            switch_op g operation addr = Some g) \<and>
         runTraceSim g (Matched operation addr sz # rest) =
           (case switch_op g operation addr of None \<Rightarrow> None | Some g1 \<Rightarrow> runTraceSim g1 rest)"
proof -
  from getData_outcome [OF assms, of addr] obtain g1 where
    g1: "getData g addr = Some g1" "well_formed g1"
      "\<forall>oc. updated_as oc (stats g) (stats g1) \<longleftrightarrow> oc = outcome g addr"
    by blast
  from getData_outcome [OF g1(2), of addr] obtain g2 where
    g2: "getData g1 addr = Some g2"
      "\<forall>oc. updated_as oc (stats g1) (stats g2) \<longleftrightarrow> oc = outcome g1 addr"
    by blast
  have "operation = CHR ''L'' \<or> operation = CHR ''S'' \<Longrightarrow> switch_op g operation addr = getData g addr"
    by (auto simp: switch_op_def)
  moreover have "operation = CHR ''M'' \<Longrightarrow> switch_op g operation addr = Some g2"
    by (simp add: switch_op_def g1 g2)
  moreover have "operation \<noteq> CHR ''L'' \<and> operation \<noteq> CHR ''S'' \<and> operation \<noteq> CHR ''M'' \<Longrightarrow>
      switch_op g operation addr = Some g"
    by (simp add: switch_op_def)
  ultimately show ?thesis using g1 g2 by auto
qed

theorem replay_record_accesses_witness:
  "well_formed (start 1 2 1) \<and>
   switch_op (start 1 2 1) (CHR ''L'') 0 = getData (start 1 2 1) 0 \<and>
   (\<exists>g1. getData (start 1 2 1) 0 = Some g1 \<and>
      updated_as MissNoEvict (stats (start 1 2 1)) (stats g1)) \<and>
   (\<exists>g1 g2. getData (start 1 2 1) 0 = Some g1 \<and> getData g1 0 = Some g2 \<and>
      switch_op (start 1 2 1) (CHR ''M'') 0 = Some g2) \<and>
   switch_op (start 1 2 1) (CHR ''I'') 0 = Some (start 1 2 1)"
proof -
  have oc: "outcome (start 1 2 1) 0 = MissNoEvict"
    by (rule outcome_all_invalid [OF start_1_2_1 start_all_invalid])
  note l = replay_record_accesses [OF start_1_2_1, of "CHR ''L''" 0 1 "[]", THEN conjunct1, rule_format, OF disjI1 [OF refl]]
  note m = replay_record_accesses [OF start_1_2_1, of "CHR ''M''" 0 1 "[]", THEN conjunct2, THEN conjunct1, rule_format, OF refl]
  note i = replay_record_accesses [OF start_1_2_1, of "CHR ''I''" 0 1 "[]", THEN conjunct2, THEN conjunct2, THEN conjunct1]
  from l obtain g1 where g1: "getData (start 1 2 1) 0 = Some g1"
    "updated_as MissNoEvict (stats (start 1 2 1)) (stats g1)"
    unfolding oc by blast
  have l': "\<exists>g1. getData (start 1 2 1) 0 = Some g1 \<and>
      updated_as MissNoEvict (stats (start 1 2 1)) (stats g1)"
    using g1 by blast
  from m have m': "\<exists>g1 g2. getData (start 1 2 1) 0 = Some g1 \<and> getData g1 0 = Some g2 \<and>
      switch_op (start 1 2 1) (CHR ''M'') 0 = Some g2"
    by blast
  have i': "switch_op (start 1 2 1) (CHR ''I'') 0 = Some (start 1 2 1)"
    using i by simp
  show ?thesis
    by (intro conjI start_1_2_1 l [THEN conjunct1] l' m' i')
qed

text \<open>
  C5. In any well-formed state, once the first call of \<^verbatim>\<open>getData\<close> for an address has
  returned, the second call for the same address is a hit: it returns, adds 1 to
  \<^verbatim>\<open>hits\<close> and leaves \<^verbatim>\<open>misses\<close> and \<^verbatim>\<open>evictions\<close> as they are, and its result is
  the result of the \<^verbatim>\<open>M\<close> record. On a cache with no valid line the first call is a miss
  without eviction, so the record is one miss followed by one hit.
\<close>

theorem modify_second_access_hits:
  assumes "well_formed g" and "getData g addr = Some g1"
  shows "outcome g1 addr = Hit \<and>
         (\<exists>g2. getData g1 addr = Some g2 \<and> switch_op g (CHR ''M'') addr = Some g2 \<and>
            updated_as Hit (stats g1) (stats g2)) \<and>
         (all_invalid g \<longrightarrow>
            outcome g addr = MissNoEvict \<and> updated_as MissNoEvict (stats g) (stats g1))"
proof -
  have h: "outcome g1 addr = Hit"
    using is_hit_after_getData [OF assms] by (simp add: outcome_def)
  from getData_outcome [OF assms(1), of addr] assms(2) have
    wf1: "well_formed g1"
    and u1: "\<forall>oc. updated_as oc (stats g) (stats g1) \<longleftrightarrow> oc = outcome g addr"
    by auto
  from getData_outcome [OF wf1, of addr] obtain g2 where
    g2: "getData g1 addr = Some g2"
      "\<forall>oc. updated_as oc (stats g1) (stats g2) \<longleftrightarrow> oc = outcome g1 addr"
    by blast
  have m: "switch_op g (CHR ''M'') addr = Some g2"
    by (simp add: switch_op_def assms(2) g2(1))
  have "updated_as Hit (stats g1) (stats g2)"
    using g2(2) h by simp
  moreover have "all_invalid g \<Longrightarrow>
      outcome g addr = MissNoEvict \<and> updated_as MissNoEvict (stats g) (stats g1)"
    using outcome_all_invalid [OF assms(1), of addr] u1 by simp
  ultimately show ?thesis using h g2(1) m by blast
qed

theorem modify_second_access_hits_witness:
  "well_formed (start 1 2 1) \<and> all_invalid (start 1 2 1) \<and>
   (\<exists>g1 g2. getData (start 1 2 1) 6 = Some g1 \<and>
      switch_op (start 1 2 1) (CHR ''M'') 6 = Some g2 \<and>
      updated_as MissNoEvict (stats (start 1 2 1)) (stats g1) \<and>
      updated_as Hit (stats g1) (stats g2))"
proof -
  obtain g1 where g1: "getData (start 1 2 1) 6 = Some g1"
    using getData_outcome [OF start_1_2_1, of 6] by blast
  note t = modify_second_access_hits [OF start_1_2_1 g1]
  from t obtain g2 where g2: "switch_op (start 1 2 1) (CHR ''M'') 6 = Some g2"
    "updated_as Hit (stats g1) (stats g2)"
    by blast
  from t start_all_invalid have "updated_as MissNoEvict (stats (start 1 2 1)) (stats g1)"
    by blast
  with g1 g2 have "\<exists>g1 g2. getData (start 1 2 1) 6 = Some g1 \<and>
      switch_op (start 1 2 1) (CHR ''M'') 6 = Some g2 \<and>
      updated_as MissNoEvict (stats (start 1 2 1)) (stats g1) \<and>
      updated_as Hit (stats g1) (stats g2)"
    by blast
  then show ?thesis
    by (intro conjI start_1_2_1 start_all_invalid)
qed

subsection \<open>Address decomposition\<close>

lemma tag_of_eq:
  assumes "0 \<le> block_bits (args g)" "0 \<le> idx_bits (args g)"
  shows "unat (tag_of g addr) =
     unat addr div 2 ^ (nat (block_bits (args g)) + nat (idx_bits (args g)))"
  using assms by (simp add: tag_of_def unat_drop_bit_eq drop_bit_nat_def nat_add_distrib)

lemma start_fields:
  "args (start s e b) = \<lparr>verbose = 0, idx_bits = s, assoc = e, block_bits = b\<rparr>"
  "num_sets (start s e b) = 2 ^ nat s"
  "stats (start s e b) = \<lparr>hits = 0, misses = 0, evictions = 0, lru_count = 0\<rparr>"
  "cache (start s e b) = replicate (2 ^ nat s) (replicate (nat e) empty_line)"
  by (simp_all add: start_def init_def globals0_def nat_power_eq)

text \<open>
  C2. In a well-formed state (index bits from 0 to 30, so that \<^verbatim>\<open>num_sets\<close> is
  \<open>2 ^ s\<close> as an \<^verbatim>\<open>int\<close>; block bits at least 0; both shifts within the 64 bits of an
  address) \<^verbatim>\<open>getData\<close> computes the set index \<open>(address >> block_bits) mod num_sets\<close>
  and the tag \<open>address >> (block_bits + index_bits)\<close> of the specification, and looks the
  address up there: the call is a hit exactly when a valid line of the set at that index
  holds that tag, and no other set of the cache changes.
\<close>

theorem address_decomposition:
  assumes "well_formed g"
  shows "set_of g addr =
           spec_set_index (nat (block_bits (args g))) (nat (num_sets g)) (unat addr) \<and>
         unat (tag_of g addr) =
           spec_tag (nat (block_bits (args g))) (nat (idx_bits (args g))) (unat addr) \<and>
         (\<exists>g'. getData g addr = Some g' \<and>
            (hits (stats g') = hits (stats g) + 1 \<longleftrightarrow>
               (\<exists>line<ways g.
                  valid (cache g ! spec_set_index (nat (block_bits (args g))) (nat (num_sets g)) (unat addr) ! line) \<and>
                  unat (tag (cache g ! spec_set_index (nat (block_bits (args g))) (nat (num_sets g)) (unat addr) ! line)) =
                    spec_tag (nat (block_bits (args g))) (nat (idx_bits (args g))) (unat addr))) \<and>
            length (cache g') = length (cache g) \<and>
            (\<forall>si<length (cache g).
               si \<noteq> spec_set_index (nat (block_bits (args g))) (nat (num_sets g)) (unat addr) \<longrightarrow>
               cache g' ! si = cache g ! si))"
proof -
  let ?si = "spec_set_index (nat (block_bits (args g))) (nat (num_sets g)) (unat addr)"
  let ?tg = "spec_tag (nat (block_bits (args g))) (nat (idx_bits (args g))) (unat addr)"
  have geo: "0 \<le> block_bits (args g)" "0 \<le> idx_bits (args g)" "idx_bits (args g) \<le> 30"
      "num_sets g = 2 ^ nat (idx_bits (args g))"
    using assms by (simp_all add: well_formed_def shifts_defined_def)
  have ns: "nat (num_sets g) = 2 ^ nat (idx_bits (args g))"
    by (simp add: geo(4) nat_power_eq)
  have si: "set_of g addr = ?si"
    by (simp add: set_of_eq [OF geo(2,3,4)] spec_set_index_def ns)
  have tg: "unat (tag_of g addr) = ?tg"
    by (simp add: tag_of_eq [OF geo(1,2)] spec_tag_def)
  from getData_effect [OF assms, of addr] obtain g' where
    g': "getData g addr = Some g'"
      "cache g' = (cache g)[set_of g addr := (cache g ! set_of g addr)
         [touched g addr := \<lparr>valid = True, tag = tag_of g addr, lru = lru_count (stats g)\<rparr>]]"
      "hits (stats g') = (if is_hit g addr then hits (stats g) + 1 else hits (stats g))"
    by blast
  have "hits (stats g') = hits (stats g) + 1 \<longleftrightarrow> is_hit g addr"
    by (simp add: g'(3))
  also have "\<dots> \<longleftrightarrow> (\<exists>line<ways g. valid (cache g ! ?si ! line) \<and>
      unat (tag (cache g ! ?si ! line)) = ?tg)"
    by (simp add: is_hit_iff si tg [symmetric] word_unat_eq_iff)
  finally have h: "hits (stats g') = hits (stats g) + 1 \<longleftrightarrow>
      (\<exists>line<ways g. valid (cache g ! ?si ! line) \<and> unat (tag (cache g ! ?si ! line)) = ?tg)" .
  have len: "length (cache g') = length (cache g)"
    by (simp add: g'(2))
  have other: "\<forall>k<length (cache g). k \<noteq> ?si \<longrightarrow> cache g' ! k = cache g ! k"
    by (simp add: g'(2) si)
  show ?thesis
    using si tg g'(1) h len other by blast
qed

theorem address_decomposition_witness:
  "well_formed (start 1 2 1) \<and>
   set_of (start 1 2 1) 6 = spec_set_index 1 2 6 \<and> spec_set_index 1 2 6 = 1 \<and>
   unat (tag_of (start 1 2 1) 6) = spec_tag 1 1 6 \<and> spec_tag 1 1 6 = 1"
proof -
  have "set_of (start 1 2 1) 6 = spec_set_index 1 2 6 \<and>
      unat (tag_of (start 1 2 1) 6) = spec_tag 1 1 6"
    using address_decomposition [OF start_1_2_1, of 6] by (simp add: start_fields)
  moreover have "spec_set_index 1 2 6 = 1" "spec_tag 1 1 6 = 1"
    by (simp_all add: spec_set_index_def spec_tag_def)
  ultimately show ?thesis using start_1_2_1 by simp
qed

subsection \<open>Calls of fscanf that do not return 3, and other operations\<close>

lemma runTraceSim_stops_at_Unmatched:
  "runTraceSim g (pre @ Unmatched # post) = runTraceSim g pre"
proof (induction pre arbitrary: g)
  case Nil
  show ?case by simp
next
  case (Cons r pre)
  show ?case
  proof (cases r)
    case (Matched operation addr sz)
    then show ?thesis by (simp add: Cons.IH split: option.splits)
  next
    case Unmatched
    then show ?thesis by simp
  qed
qed

lemma runTraceSim_skips_other:
  assumes "operation \<noteq> CHR ''L''" "operation \<noteq> CHR ''S''" "operation \<noteq> CHR ''M''"
  shows "runTraceSim g (pre @ Matched operation addr sz # post) = runTraceSim g (pre @ post)"
proof (induction pre arbitrary: g)
  case Nil
  show ?case using assms by (simp add: switch_op_def)
next
  case (Cons r pre)
  show ?case
  proof (cases r)
    case (Matched operation' addr' sz')
    then show ?thesis by (simp add: Cons.IH split: option.splits)
  next
    case Unmatched
    then show ?thesis by simp
  qed
qed

text \<open>
  C6, as stated, fails: the loop of \<^verbatim>\<open>runTraceSim\<close> runs while \<^verbatim>\<open>fscanf\<close> returns 3,
  so the first call that returns less ends the replay, and a record after that point is not
  processed. With \<^verbatim>\<open>-s 1 -E 1 -b 1\<close> and the file of the two lines \<^verbatim>\<open>L zz,1\<close> and
  \<^verbatim>\<open>L 0,1\<close>, the first call reads \<^verbatim>\<open>L\<close>, finds no hexadecimal digit at \<^verbatim>\<open>z\<close> and
  returns 1: the state stays the initial one, where replaying \<^verbatim>\<open>L 0,1\<close> alone is a call
  of \<^verbatim>\<open>getData\<close> that changes it.
\<close>

theorem unmatched_call_counterexample:
  "runTraceSim (start 1 1 1) [Unmatched, Matched (CHR ''L'') 0 1] = Some (start 1 1 1) \<and>
   runTraceSim (start 1 1 1) [Matched (CHR ''L'') 0 1] \<noteq> Some (start 1 1 1) \<and>
   runTraceSim (start 1 1 1) [Matched (CHR ''L'') 0 1] \<noteq> None"
  by code_simp

text \<open>
  C6, amended, in terms of the calls of \<^verbatim>\<open>fscanf\<close>. The first call that matches fewer
  than three fields ends the replay: nothing it read reaches \<^verbatim>\<open>getData\<close> or changes the
  counters, and the result is the result of the records matched before it, whatever the file
  holds from there on. A matched record with an operation character other than \<^verbatim>\<open>L\<close>,
  \<^verbatim>\<open>S\<close>, \<^verbatim>\<open>M\<close> leaves the state as it is, cannot fail, and the records after it are
  processed as if it were not there.
\<close>

theorem unmatched_call_ends_replay:
  "runTraceSim g (pre @ Unmatched # post) = runTraceSim g pre \<and>
   (operation \<noteq> CHR ''L'' \<and> operation \<noteq> CHR ''S'' \<and> operation \<noteq> CHR ''M'' \<longrightarrow>
      switch_op g operation addr = Some g \<and>
      runTraceSim g (pre @ Matched operation addr sz # post) = runTraceSim g (pre @ post))"
  using runTraceSim_stops_at_Unmatched [of g pre post]
    runTraceSim_skips_other [of operation g pre addr sz post]
  by (simp add: switch_op_def)

theorem unmatched_call_ends_replay_witness:
  "runTraceSim (start 1 1 1) ([Matched (CHR ''L'') 0 1] @ Unmatched # [Matched (CHR ''L'') 4 1]) =
     runTraceSim (start 1 1 1) [Matched (CHR ''L'') 0 1] \<and>
   runTraceSim (start 1 1 1) ([Matched (CHR ''L'') 0 1] @ Matched (CHR ''I'') 8 4 # [Matched (CHR ''L'') 4 1]) =
     runTraceSim (start 1 1 1) ([Matched (CHR ''L'') 0 1] @ [Matched (CHR ''L'') 4 1])"
proof -
  have c: "CHR ''I'' \<noteq> CHR ''L'' \<and> CHR ''I'' \<noteq> CHR ''S'' \<and> CHR ''I'' \<noteq> CHR ''M''"
    by simp
  note t = unmatched_call_ends_replay [of "start 1 1 1" "[Matched (CHR ''L'') 0 1]"
      "[Matched (CHR ''L'') 4 1]" "CHR ''I''" 8 4]
  show ?thesis
    using t [THEN conjunct1] t [THEN conjunct2, rule_format, OF c, THEN conjunct2]
    by (intro conjI)
qed

subsection \<open>The check of the arguments in main\<close>

text \<open>
  C8, as stated, fails: \<^verbatim>\<open>main\<close> compares the three numbers with 0 only. With
  \<^verbatim>\<open>-s 1 -E -1 -b 1 -t t\<close> and an empty trace file no error is reported: the check
  passes, \<^verbatim>\<open>init\<close> and \<^verbatim>\<open>runTraceSim\<close> run, and the summary is printed.
\<close>

theorem negative_assoc_counterexample:
  "main [Opt_s 1, Opt_E (- 1), Opt_b 1, Opt_t ''t''] [] = Exited 0 [Summary 0 0 0]"
  by code_simp

text \<open>
  C8, amended. When the options are read without \<^verbatim>\<open>-h\<close> or an unknown option, and
  index bits, associativity or block bits is 0 (the value of an option that was not given)
  or there is no trace path, the program prints the missing-argument message and the usage
  text and exits, whatever the trace file holds: nothing of \<^verbatim>\<open>init\<close> or
  \<^verbatim>\<open>runTraceSim\<close> runs. The exit status is left open here.
\<close>

theorem missing_argument_exit:
  assumes "getopt_loop globals0 opts = Inr g"
    and "idx_bits (args g) = 0 \<or> assoc (args g) = 0 \<or> block_bits (args g) = 0 \<or> t_addr g = None"
  shows "\<exists>status. main opts trace = Exited status [Missing_argument, Usage]"
  using assms by (simp add: main_def required_args_missing_def help_usage_def)

theorem missing_argument_exit_witness:
  "getopt_loop globals0 [Opt_s 4, Opt_b 4, Opt_t ''t''] =
     Inr (globals0\<lparr>args := \<lparr>verbose = 0, idx_bits = 4, assoc = 0, block_bits = 4\<rparr>, t_addr := Some ''t''\<rparr>) \<and>
   (\<exists>status. main [Opt_s 4, Opt_b 4, Opt_t ''t''] [Matched (CHR ''L'') 0 1] =
      Exited status [Missing_argument, Usage])"
proof -
  have g: "getopt_loop globals0 [Opt_s 4, Opt_b 4, Opt_t ''t''] =
     Inr (globals0\<lparr>args := \<lparr>verbose = 0, idx_bits = 4, assoc = 0, block_bits = 4\<rparr>, t_addr := Some ''t''\<rparr>)"
    by (simp add: globals0_def)
  show ?thesis
    using g missing_argument_exit [OF g, of "[Matched (CHR ''L'') 0 1]"] by simp
qed

text \<open>The status of that exit is 0: \<^verbatim>\<open>help\<close> calls \<^verbatim>\<open>exit(0)\<close>, and the
  \<^verbatim>\<open>exit(1)\<close> that follows the call in \<^verbatim>\<open>main\<close> is never reached.\<close>

lemma missing_argument_exit_status:
  assumes "getopt_loop globals0 opts = Inr g" and "required_args_missing g"
  shows "main opts trace = Exited 0 [Missing_argument, Usage]"
  using assms by (simp add: main_def help_usage_def)

subsection \<open>The first stamp is the stamp of an empty line\<close>

text \<open>
  C3, at \<^verbatim>\<open>-s 1 -E 2 -b 1\<close> with the trace \<^verbatim>\<open>L 0,1\<close>, \<^verbatim>\<open>L 4,1\<close>. Both addresses
  are in set 0, with tags 0 and 1. The first access is the first of the run and stamps
  line 0 with the clock value 0, the \<^verbatim>\<open>lru\<close> of an empty line. At the second access
  the scan of \<^verbatim>\<open>evict\<close> finds the minimum 0 first at line 0, which is valid: the tag 0
  is evicted and counted while line 1 of the set is still invalid.
\<close>

theorem valid_line_evicted_before_invalid:
  "runTraceSim (start 1 2 1) [Matched (CHR ''L'') 0 1, Matched (CHR ''L'') 4 1] =
     Some \<lparr>cache = [[\<lparr>valid = True, tag = 1, lru = 1\<rparr>, \<lparr>valid = False, tag = 0, lru = 0\<rparr>],
                     [\<lparr>valid = False, tag = 0, lru = 0\<rparr>, \<lparr>valid = False, tag = 0, lru = 0\<rparr>]],
           args = \<lparr>verbose = 0, idx_bits = 1, assoc = 2, block_bits = 1\<rparr>,
           stats = \<lparr>hits = 0, misses = 2, evictions = 1, lru_count = 2\<rparr>,
           num_sets = 2, block_size = 2, t_addr = None\<rparr> \<and>
   main [Opt_s 1, Opt_E 2, Opt_b 1, Opt_t ''t''] [Matched (CHR ''L'') 0 1, Matched (CHR ''L'') 4 1] =
     Exited 0 [Summary 0 2 1]"
  by code_simp

text \<open>
  C7, at \<^verbatim>\<open>-s 1 -E 2 -b 1\<close> with the trace \<^verbatim>\<open>L 0,1\<close>, \<^verbatim>\<open>L 4,1\<close>, \<^verbatim>\<open>L 2,1\<close>,
  \<^verbatim>\<open>L 6,1\<close>: four addresses, two in each of the two sets, with two tags each. After
  the four accesses one eviction is counted and line 1 of set 0 is not valid.
\<close>

theorem capacity_fill_evicts:
  "runTraceSim (start 1 2 1)
     [Matched (CHR ''L'') 0 1, Matched (CHR ''L'') 4 1, Matched (CHR ''L'') 2 1, Matched (CHR ''L'') 6 1] =
     Some \<lparr>cache = [[\<lparr>valid = True, tag = 1, lru = 1\<rparr>, \<lparr>valid = False, tag = 0, lru = 0\<rparr>],
                     [\<lparr>valid = True, tag = 0, lru = 2\<rparr>, \<lparr>valid = True, tag = 1, lru = 3\<rparr>]],
           args = \<lparr>verbose = 0, idx_bits = 1, assoc = 2, block_bits = 1\<rparr>,
           stats = \<lparr>hits = 0, misses = 4, evictions = 1, lru_count = 4\<rparr>,
           num_sets = 2, block_size = 2, t_addr = None\<rparr> \<and>
   main [Opt_s 1, Opt_E 2, Opt_b 1, Opt_t ''t'']
     [Matched (CHR ''L'') 0 1, Matched (CHR ''L'') 4 1, Matched (CHR ''L'') 2 1, Matched (CHR ''L'') 6 1] =
     Exited 0 [Summary 0 4 1]"
  by code_simp

subsection \<open>Repeated accesses to one address\<close>

lemma getData_is_hit:
  assumes wf: "well_formed g" and h: "is_hit g addr"
  shows "getData g addr = Some (after_hits g addr (Suc 0))"
proof -
  from h obtain l where l: "hit_line (ways g) (cache g ! set_of g addr) (tag_of g addr) = Some l"
    by (auto simp: is_hit_def)
  then have t: "touched g addr = l" by (simp add: touched_def)
  show ?thesis
    by (simp add: getData_hit [OF wf l] after_hits_def t)
qed

lemma touched_after_hit:
  assumes wf: "well_formed g" and h: "is_hit g addr"
  shows "touched (after_hits g addr (Suc 0)) addr = touched g addr"
proof -
  let ?S = "cache g ! set_of g addr" and ?g1 = "after_hits g addr (Suc 0)"
  from h obtain l where l: "hit_line (ways g) ?S (tag_of g addr) = Some l"
    by (auto simp: is_hit_def)
  then have t: "touched g addr = l" by (simp add: touched_def)
  have si: "set_of g addr < length (cache g)" by (rule set_of_less [OF wf])
  have len: "length ?S = ways g" by (rule well_formed_set_length [OF wf si])
  have geo: "set_of ?g1 addr = set_of g addr" "tag_of ?g1 addr = tag_of g addr" "ways ?g1 = ways g"
    by (rule same_geometry; simp add: after_hits_def)+
  have S1: "cache ?g1 ! set_of g addr =
      ?S[l := \<lparr>valid = True, tag = tag_of g addr, lru = lru_count (stats g)\<rparr>]"
    using si by (simp add: after_hits_def t)
  have "hit_line (ways g) (cache ?g1 ! set_of g addr) (tag_of g addr) = Some l"
    using l len unfolding S1 hit_line_Some by (auto simp: nth_list_update)
  then show ?thesis
    unfolding touched_def [of ?g1] geo t by simp
qed

lemma after_hits_Suc:
  assumes wf: "well_formed g" and h: "is_hit g addr"
  shows "after_hits (after_hits g addr (Suc 0)) addr n = after_hits g addr (Suc n)"
proof (cases n)
  case 0
  then show ?thesis by (simp add: after_hits_def)
next
  case (Suc k)
  let ?g1 = "after_hits g addr (Suc 0)"
  have si: "set_of g addr < length (cache g)" by (rule set_of_less [OF wf])
  have geo: "set_of ?g1 addr = set_of g addr" "tag_of ?g1 addr = tag_of g addr"
    by (rule same_geometry; simp add: after_hits_def)+
  have t: "touched ?g1 addr = touched g addr" by (rule touched_after_hit [OF wf h])
  have "after_hits ?g1 addr (Suc k) = after_hits g addr (Suc (Suc k))"
    unfolding after_hits_def [of ?g1] geo t
    using si by (simp add: after_hits_def ac_simps)
  then show ?thesis by (simp add: Suc)
qed

lemma repeated_hits:
  assumes "well_formed g" and "is_hit g addr"
  shows "runTraceSim g (replicate n (Matched (CHR ''L'') addr sz)) = Some (after_hits g addr n)"
  using assms
proof (induction n arbitrary: g)
  case 0
  show ?case by (simp add: after_hits_def)
next
  case (Suc n)
  have g1: "getData g addr = Some (after_hits g addr (Suc 0))"
    by (rule getData_is_hit [OF Suc.prems])
  have wf1: "well_formed (after_hits g addr (Suc 0))"
    using getData_effect [OF Suc.prems(1), of addr] g1 by auto
  have h1: "is_hit (after_hits g addr (Suc 0)) addr"
    by (rule is_hit_after_getData [OF Suc.prems(1) g1])
  show ?case
    by (simp add: switch_op_def g1 Suc.IH [OF wf1 h1] after_hits_Suc [OF Suc.prems])
qed



lemma load_then_repeat:
  assumes wf: "well_formed g" and g1: "getData g addr = Some g1"
  shows "runTraceSim g (Matched (CHR ''L'') addr sz # replicate n (Matched (CHR ''L'') addr sz)) =
     Some (after_hits g1 addr n)"
proof -
  have wf1: "well_formed g1"
    using getData_effect [OF wf, of addr] g1 by auto
  have h1: "is_hit g1 addr" by (rule is_hit_after_getData [OF wf g1])
  show ?thesis
    by (simp add: switch_op_def g1 repeated_hits [OF wf1 h1])
qed

subsection \<open>The counters over a whole trace\<close>












subsection \<open>Tags and stamps\<close>

lemma concat_nth_split:
  assumes "si < length C" "t < length (C ! si)"
  shows "concat C = (concat (take si C) @ take t (C ! si)) @ (C ! si ! t) #
           (drop (Suc t) (C ! si) @ concat (drop (Suc si) C))"
proof -
  have "concat C = concat (take si C @ (C ! si) # drop (Suc si) C)"
    using id_take_nth_drop [OF assms(1)] by simp
  also have "\<dots> = concat (take si C) @ (C ! si) @ concat (drop (Suc si) C)"
    by simp
  also have "C ! si = take t (C ! si) @ (C ! si ! t) # drop (Suc t) (C ! si)"
    by (rule id_take_nth_drop [OF assms(2)])
  finally show ?thesis by simp
qed

lemma concat_update_split:
  assumes "si < length C" "t < length (C ! si)"
  shows "concat (C[si := (C ! si)[t := ln]]) = (concat (take si C) @ take t (C ! si)) @ ln #
           (drop (Suc t) (C ! si) @ concat (drop (Suc si) C))"
  by (subst upd_conv_take_nth_drop [OF assms(1)], subst upd_conv_take_nth_drop [OF assms(2)]) simp

lemma word64_less_Suc:
  fixes y c :: "64 word"
  assumes "c \<noteq> ULONG_MAX"
  shows "c < c + 1" and "y < c + 1 \<longleftrightarrow> y \<le> c"
proof -
  have "ULONG_MAX = - 1" by (simp add: ULONG_MAX_def)
  with assms have "c \<noteq> - 1" by simp
  then have nz: "c + 1 \<noteq> 0" by (simp add: eq_neg_iff_add_eq_0)
  then have u: "unat (c + 1) = Suc (unat c)"
    using unatSuc [of c] by (simp add: add.commute)
  show "c < c + 1" by (simp add: word_less_nat_alt u)
  show "y < c + 1 \<longleftrightarrow> y \<le> c" by (auto simp: word_less_nat_alt word_le_nat_alt u)
qed

text \<open>Stamps: replacing one line by a valid line stamped with the clock.\<close>

lemma stamps_after_update:
  assumes old: "concat C = A @ x # B" and new: "concat C' = A @ ln # B"
    and v: "valid ln" and d: "distinct (map lru (filter valid (concat C)))"
    and below: "list_all (\<lambda>y. y < c) (map lru (filter valid (concat C)))"
    and stamp: "lru ln = c" and nowrap: "c \<noteq> ULONG_MAX"
  shows "distinct (map lru (filter valid (concat C'))) \<and>
         list_all (\<lambda>y. y < c + 1) (map lru (filter valid (concat C'))) \<and>
         list_all (\<lambda>y. y \<le> c) (map lru (filter valid (concat C')))"
proof -
  note s = word64_less_Suc [OF nowrap]
  have dA: "distinct (map lru (filter valid A))" "distinct (map lru (filter valid B))"
    "lru ` set (filter valid A) \<inter> lru ` set (filter valid B) = {}"
    using d unfolding old by (auto split: if_splits)
  have bA: "\<forall>l \<in> set (filter valid A). lru l < c" "\<forall>l \<in> set (filter valid B). lru l < c"
    using below unfolding old by (auto simp: list_all_iff split: if_splits)
  have nin: "c \<notin> lru ` set (filter valid A)" "c \<notin> lru ` set (filter valid B)"
    using bA by auto
  show ?thesis
    unfolding new using v dA bA nin stamp
    by (auto simp: list_all_iff s(2) intro: less_imp_le)
qed

lemma tags_after_update:
  assumes "S = A @ x # B" and "S' = A @ ln # B" and "valid ln"
    and "distinct (map tag (filter valid S))"
    and "valid x \<and> tag x = tag ln \<or> tag ln \<notin> tag ` set (filter valid S)"
  shows "distinct (map tag (filter valid S'))"
  using assms by (auto split: if_splits)

lemma access_keeps_no_dup_tags:
  assumes wf: "well_formed g" and nd: "no_dup_tags g"
    and c: "cache g' = (cache g)[set_of g addr := (cache g ! set_of g addr)
         [touched g addr := \<lparr>valid = True, tag = tag_of g addr, lru = clk\<rparr>]]"
  shows "no_dup_tags g'"
proof -
  let ?si = "set_of g addr" and ?t = "touched g addr"
  let ?S = "cache g ! ?si"
  let ?ln = "\<lparr>valid = True, tag = tag_of g addr, lru = clk\<rparr>"
  have si: "?si < length (cache g)" by (rule set_of_less [OF wf])
  have len: "length ?S = ways g" by (rule well_formed_set_length [OF wf si])
  have t: "?t < length ?S" using touched_less [OF wf, of addr] len by simp
  have dS: "distinct (map tag (filter valid ?S))"
    using nd si by (simp add: no_dup_tags_def list_all_length)
  have alt: "valid (?S ! ?t) \<and> tag (?S ! ?t) = tag ?ln \<or> tag ?ln \<notin> tag ` set (filter valid ?S)"
  proof (cases "hit_line (ways g) ?S (tag_of g addr)")
    case None
    then have "\<forall>j<length ?S. \<not> (valid (?S ! j) \<and> tag (?S ! j) = tag_of g addr)"
      by (simp add: hit_line_None len)
    then have "tag_of g addr \<notin> tag ` set (filter valid ?S)"
      by (auto simp: in_set_conv_nth)
    then show ?thesis by simp
  next
    case (Some l)
    then have "?t = l" by (simp add: touched_def)
    with Some show ?thesis by (simp add: hit_line_Some)
  qed
  have dS': "distinct (map tag (filter valid (?S[?t := ?ln])))"
    by (rule tags_after_update [OF id_take_nth_drop [OF t] upd_conv_take_nth_drop [OF t] _ dS alt])
      simp
  show ?thesis
    unfolding no_dup_tags_def c using nd si dS'
    by (auto simp: no_dup_tags_def list_all_length nth_list_update)
qed

lemma access_keeps_clock_ahead:
  assumes wf: "well_formed g" and ca: "clock_ahead g" and nw: "lru_count (stats g) \<noteq> ULONG_MAX"
    and c: "cache g' = (cache g)[set_of g addr := (cache g ! set_of g addr)
         [touched g addr := \<lparr>valid = True, tag = tag_of g addr, lru = lru_count (stats g)\<rparr>]]"
    and k: "lru_count (stats g') = lru_count (stats g) + 1"
  shows "clock_ahead g' \<and> list_all (\<lambda>x. x \<le> lru_count (stats g)) (valid_stamps g')"
proof -
  let ?si = "set_of g addr" and ?t = "touched g addr"
  have si: "?si < length (cache g)" by (rule set_of_less [OF wf])
  have t: "?t < length (cache g ! ?si)"
    using touched_less [OF wf, of addr] well_formed_set_length [OF wf si] by simp
  from ca have d: "distinct (map lru (filter valid (concat (cache g))))"
    and b: "list_all (\<lambda>y. y < lru_count (stats g)) (map lru (filter valid (concat (cache g))))"
    by (simp_all add: clock_ahead_def valid_stamps_def)
  note r = stamps_after_update [OF concat_nth_split [OF si t]
      concat_update_split [OF si t, of "\<lparr>valid = True, tag = tag_of g addr, lru = lru_count (stats g)\<rparr>"]
      _ d b _ nw]
  show ?thesis
    using r by (simp add: clock_ahead_def valid_stamps_def c k)
qed

lemma getData_tags_and_stamps:
  assumes "well_formed g" and "no_dup_tags g"
  shows "\<exists>g'. getData g addr = Some g' \<and> no_dup_tags g' \<and>
           cache g' = (cache g)[set_of g addr := (cache g ! set_of g addr)
             [touched g addr := \<lparr>valid = True, tag = tag_of g addr, lru = lru_count (stats g)\<rparr>]] \<and>
           lru_count (stats g') = lru_count (stats g) + 1 \<and>
           (clock_ahead g \<and> lru_count (stats g) \<noteq> ULONG_MAX \<longrightarrow>
              lru_count (stats g) < lru_count (stats g') \<and> clock_ahead g' \<and>
              list_all (\<lambda>x. x \<le> lru_count (stats g)) (valid_stamps g'))"
proof -
  from getData_effect [OF assms(1), of addr] obtain g' where
    g': "getData g addr = Some g'"
    and c: "cache g' = (cache g)[set_of g addr := (cache g ! set_of g addr)
         [touched g addr := \<lparr>valid = True, tag = tag_of g addr, lru = lru_count (stats g)\<rparr>]]"
    and k: "lru_count (stats g') = lru_count (stats g) + 1"
    by blast
  have nd: "no_dup_tags g'" by (rule access_keeps_no_dup_tags [OF assms c])
  have "clock_ahead g \<and> lru_count (stats g) \<noteq> ULONG_MAX \<Longrightarrow>
      lru_count (stats g) < lru_count (stats g') \<and> clock_ahead g' \<and>
      list_all (\<lambda>x. x \<le> lru_count (stats g)) (valid_stamps g')"
    using access_keeps_clock_ahead [OF assms(1) _ _ c k] word64_less_Suc(1) [of "lru_count (stats g)"]
    by (simp add: k)
  then show ?thesis using g' nd c k by blast
qed

lemma access_keeps_lru_inv:
  assumes inv: "lru_inv g" and b: "unat (lru_count (stats g)) + 1 < 2 ^ 64"
  shows "\<exists>g'. getData g addr = Some g' \<and> lru_inv g' \<and>
           unat (lru_count (stats g')) = unat (lru_count (stats g)) + 1"
proof -
  from inv have wf: "well_formed g" and nd: "no_dup_tags g" and ca: "clock_ahead g"
    by (simp_all add: lru_inv_def)
  have "unat ULONG_MAX = 2 ^ 64 - 1" by (simp add: ULONG_MAX_def)
  with b have nw: "lru_count (stats g) \<noteq> ULONG_MAX" by auto
  from getData_effect [OF wf, of addr] obtain g' where
    g': "getData g addr = Some g'" and wf': "well_formed g'"
    by blast
  from getData_tags_and_stamps [OF wf nd, of addr] g' ca nw have
    nd': "no_dup_tags g'" and ca': "clock_ahead g'"
    and k: "lru_count (stats g') = lru_count (stats g) + 1"
    by auto
  have "unat (lru_count (stats g) + 1) = unat (lru_count (stats g)) + 1"
    using b unat_add_lem [of "lru_count (stats g)" 1] by simp
  then show ?thesis
    using g' wf' nd' ca' k by (simp add: lru_inv_def)
qed

lemma switch_op_keeps_lru_inv:
  assumes inv: "lru_inv g"
    and b: "unat (lru_count (stats g)) + n_access [Matched operation addr sz] < 2 ^ 64"
  shows "\<exists>g'. switch_op g operation addr = Some g' \<and> lru_inv g' \<and>
           unat (lru_count (stats g')) =
             unat (lru_count (stats g)) + n_access [Matched operation addr sz]"
proof -
  consider (one) "operation = CHR ''L'' \<or> operation = CHR ''S''"
    | (two) "operation = CHR ''M''"
    | (none) "operation \<noteq> CHR ''L''" "operation \<noteq> CHR ''S''" "operation \<noteq> CHR ''M''"
    by blast
  then show ?thesis
  proof cases
    case one
    with b have "unat (lru_count (stats g)) + 1 < 2 ^ 64" by auto
    from access_keeps_lru_inv [OF inv this, of addr] one show ?thesis
      by (auto simp: switch_op_def)
  next
    case two
    with b have b1: "unat (lru_count (stats g)) + 1 < 2 ^ 64" by auto
    from access_keeps_lru_inv [OF inv this, of addr] obtain g1 where
      g1: "getData g addr = Some g1" "lru_inv g1"
        "unat (lru_count (stats g1)) = unat (lru_count (stats g)) + 1"
      by blast
    from two b g1(3) have "unat (lru_count (stats g1)) + 1 < 2 ^ 64" by simp
    from access_keeps_lru_inv [OF g1(2) this, of addr] obtain g2 where
      g2: "getData g1 addr = Some g2" "lru_inv g2"
        "unat (lru_count (stats g2)) = unat (lru_count (stats g1)) + 1"
      by blast
    show ?thesis using two g1 g2 by (simp add: switch_op_def)
  next
    case none
    then show ?thesis using inv by (simp add: switch_op_def)
  qed
qed

lemma replay_keeps_lru_inv:
  assumes "lru_inv g" and "unat (lru_count (stats g)) + n_access trace < 2 ^ 64"
  shows "\<exists>g'. runTraceSim g trace = Some g' \<and> lru_inv g' \<and>
           unat (lru_count (stats g')) = unat (lru_count (stats g)) + n_access trace"
  using assms
proof (induction trace arbitrary: g)
  case Nil
  then show ?case by simp
next
  case (Cons r trace)
  show ?case
  proof (cases r)
    case Unmatched
    with Cons.prems show ?thesis by simp
  next
    case (Matched operation addr sz)
    have n: "n_access (r # trace) = n_access [Matched operation addr sz] + n_access trace"
      by (simp add: Matched)
    from Cons.prems(2) have "unat (lru_count (stats g)) + n_access [Matched operation addr sz] < 2 ^ 64"
      unfolding n by simp
    from switch_op_keeps_lru_inv [OF Cons.prems(1) this] obtain g1 where
      g1: "switch_op g operation addr = Some g1" "lru_inv g1"
        "unat (lru_count (stats g1)) = unat (lru_count (stats g)) + n_access [Matched operation addr sz]"
      by blast
    from Cons.prems(2) g1(3) have "unat (lru_count (stats g1)) + n_access trace < 2 ^ 64"
      unfolding n by simp
    from Cons.IH [OF g1(2) this] obtain g' where
      g': "runTraceSim g1 trace = Some g'" "lru_inv g'"
        "unat (lru_count (stats g')) = unat (lru_count (stats g1)) + n_access trace"
      by blast
    show ?thesis
      using g1 g' by (simp add: Matched)
  qed
qed

lemma start_lru_inv:
  assumes "0 < e" "e \<le> 2147483647" "0 \<le> s" "s \<le> 30" "0 \<le> b" "b + s < 64"
  shows "lru_inv (start s e b)"
proof -
  have "filter valid (concat (replicate m (replicate n empty_line))) = []" for m n
    by (induction m) (simp_all add: empty_line_def)
  then show ?thesis
    using start_well_formed [OF assms]
    by (simp add: lru_inv_def no_dup_tags_def clock_ahead_def valid_stamps_def start_fields
        list_all_length empty_line_def)
qed

lemma runTraceSim_load:
  "getData g addr = Some g1 \<Longrightarrow>
     runTraceSim g (Matched (CHR ''L'') addr sz # rest) = runTraceSim g1 rest"
  by (simp add: switch_op_def)

text \<open>
  C9, as stated, fails: \<^verbatim>\<open>lru_count\<close> is a 64-bit counter and \<^verbatim>\<open>lru_count++\<close> wraps
  around to 0. With \<^verbatim>\<open>-s 1 -E 1 -b 1\<close>: one load of address 0 (set 0, stamp 0), then
  \<open>2 ^ 64\<close> loads of address 2 (set 1; a miss with stamp 1, then \<open>2 ^ 64 - 1\<close> hits, the
  last with stamp \<open>2 ^ 64\<close>, which is 0). Both lines of the cache are valid with
  \<^verbatim>\<open>lru\<close> 0.
\<close>

theorem stamps_wrap_counterexample:
  "runTraceSim (start 1 1 1)
     (Matched (CHR ''L'') 0 1 # Matched (CHR ''L'') 2 1 #
        replicate (2 ^ 64 - 1) (Matched (CHR ''L'') 2 1)) =
     Some \<lparr>cache = [[\<lparr>valid = True, tag = 0, lru = 0\<rparr>], [\<lparr>valid = True, tag = 0, lru = 0\<rparr>]],
           args = \<lparr>verbose = 0, idx_bits = 1, assoc = 1, block_bits = 1\<rparr>,
           stats = \<lparr>hits = 4294967295, misses = 2, evictions = 0, lru_count = 1\<rparr>,
           num_sets = 2, block_size = 2, t_addr = None\<rparr> \<and>
   valid_stamps
     \<lparr>cache = [[\<lparr>valid = True, tag = 0, lru = 0\<rparr>], [\<lparr>valid = True, tag = 0, lru = 0\<rparr>]],
      args = \<lparr>verbose = 0, idx_bits = 1, assoc = 1, block_bits = 1\<rparr>,
      stats = \<lparr>hits = 4294967295, misses = 2, evictions = 0, lru_count = 1\<rparr>,
      num_sets = 2, block_size = 2, t_addr = None\<rparr> = [0, 0]"
proof -
  let ?g1 = "\<lparr>cache = [[\<lparr>valid = True, tag = 0, lru = 0\<rparr>], [\<lparr>valid = False, tag = 0, lru = 0\<rparr>]],
           args = \<lparr>verbose = 0, idx_bits = 1, assoc = 1, block_bits = 1\<rparr>,
           stats = \<lparr>hits = 0, misses = 1, evictions = 0, lru_count = 1\<rparr>,
           num_sets = 2, block_size = 2, t_addr = None\<rparr>"
  let ?g2 = "\<lparr>cache = [[\<lparr>valid = True, tag = 0, lru = 0\<rparr>], [\<lparr>valid = True, tag = 0, lru = 1\<rparr>]],
           args = \<lparr>verbose = 0, idx_bits = 1, assoc = 1, block_bits = 1\<rparr>,
           stats = \<lparr>hits = 0, misses = 2, evictions = 0, lru_count = 2\<rparr>,
           num_sets = 2, block_size = 2, t_addr = None\<rparr>"
  have a1: "getData (start 1 1 1) 0 = Some ?g1" by code_simp
  have a2: "getData ?g1 2 = Some ?g2" by code_simp
  have wf1: "well_formed ?g1"
    by (simp add: well_formed_def shifts_defined_def ways_def)
  have run: "runTraceSim ?g1 (Matched (CHR ''L'') 2 1 # replicate n (Matched (CHR ''L'') 2 1)) =
      Some (after_hits ?g2 2 n)" for n
    by (rule load_then_repeat [OF wf1 a2])
  have s: "set_of ?g2 2 = 1" "tag_of ?g2 2 = 0" "touched ?g2 2 = 0"
    by code_simp+
  have w32: "(of_nat (2 ^ 64 - 1) :: 32 word) = 4294967295" by simp
  have w64: "(of_nat (2 ^ 64 - 1) :: 64 word) = - 1" "(of_nat (2 ^ 64 - 1 - 1) :: 64 word) = - 2"
    by simp_all
  have fin: "after_hits ?g2 2 (2 ^ 64 - 1) =
     \<lparr>cache = [[\<lparr>valid = True, tag = 0, lru = 0\<rparr>], [\<lparr>valid = True, tag = 0, lru = 0\<rparr>]],
           args = \<lparr>verbose = 0, idx_bits = 1, assoc = 1, block_bits = 1\<rparr>,
           stats = \<lparr>hits = 4294967295, misses = 2, evictions = 0, lru_count = 1\<rparr>,
           num_sets = 2, block_size = 2, t_addr = None\<rparr>"
    unfolding after_hits_def s w32 w64 by simp
  have "runTraceSim (start 1 1 1)
     (Matched (CHR ''L'') 0 1 # Matched (CHR ''L'') 2 1 #
        replicate (2 ^ 64 - 1) (Matched (CHR ''L'') 2 1)) =
      runTraceSim ?g1 (Matched (CHR ''L'') 2 1 # replicate (2 ^ 64 - 1) (Matched (CHR ''L'') 2 1))"
    by (rule runTraceSim_load [OF a1])
  also have "\<dots> = Some (after_hits ?g2 2 (2 ^ 64 - 1))"
    by (rule run)
  finally have r: "runTraceSim (start 1 1 1)
     (Matched (CHR ''L'') 0 1 # Matched (CHR ''L'') 2 1 #
        replicate (2 ^ 64 - 1) (Matched (CHR ''L'') 2 1)) =
     Some \<lparr>cache = [[\<lparr>valid = True, tag = 0, lru = 0\<rparr>], [\<lparr>valid = True, tag = 0, lru = 0\<rparr>]],
           args = \<lparr>verbose = 0, idx_bits = 1, assoc = 1, block_bits = 1\<rparr>,
           stats = \<lparr>hits = 4294967295, misses = 2, evictions = 0, lru_count = 1\<rparr>,
           num_sets = 2, block_size = 2, t_addr = None\<rparr>"
    by (simp only: fin)
  have v: "valid_stamps
     \<lparr>cache = [[\<lparr>valid = True, tag = 0, lru = 0\<rparr>], [\<lparr>valid = True, tag = 0, lru = 0\<rparr>]],
      args = \<lparr>verbose = 0, idx_bits = 1, assoc = 1, block_bits = 1\<rparr>,
      stats = \<lparr>hits = 4294967295, misses = 2, evictions = 0, lru_count = 1\<rparr>,
      num_sets = 2, block_size = 2, t_addr = None\<rparr> = [0, 0]"
    by (simp add: valid_stamps_def)
  show ?thesis using r v by (rule conjI)
qed

text \<open>
  C9, amended. In a well-formed state where no two valid lines of a set hold the same tag,
  every access returns and keeps it so; it changes one line only, which it stamps with the
  clock, and adds 1 to the clock. While the clock has not reached its last value
  \<open>2 ^ 64 - 1\<close>, the access also keeps the stamps of the valid lines pairwise distinct and
  below the clock, and the line it touched carries the greatest stamp: the order of the
  stamps is the order of the accesses that last touched the lines. So this holds after any
  trace on which, counted with the clock's starting value, fewer than \<open>2 ^ 64\<close> accesses
  are made.
\<close>

theorem access_keeps_tags_and_stamps:
  assumes "well_formed g" and "no_dup_tags g"
  shows "(\<exists>g'. getData g addr = Some g' \<and> no_dup_tags g' \<and>
           cache g' = (cache g)[set_of g addr := (cache g ! set_of g addr)
             [touched g addr := \<lparr>valid = True, tag = tag_of g addr, lru = lru_count (stats g)\<rparr>]] \<and>
           lru_count (stats g') = lru_count (stats g) + 1 \<and>
           (clock_ahead g \<and> lru_count (stats g) \<noteq> ULONG_MAX \<longrightarrow>
              lru_count (stats g) < lru_count (stats g') \<and> clock_ahead g' \<and>
              list_all (\<lambda>x. x \<le> lru_count (stats g)) (valid_stamps g'))) \<and>
         (clock_ahead g \<and> unat (lru_count (stats g)) + n_access trace < 2 ^ 64 \<longrightarrow>
            (\<exists>g'. runTraceSim g trace = Some g' \<and> no_dup_tags g' \<and> clock_ahead g' \<and>
               unat (lru_count (stats g')) = unat (lru_count (stats g)) + n_access trace))"
proof -
  have "clock_ahead g \<and> unat (lru_count (stats g)) + n_access trace < 2 ^ 64 \<Longrightarrow>
      \<exists>g'. runTraceSim g trace = Some g' \<and> no_dup_tags g' \<and> clock_ahead g' \<and>
         unat (lru_count (stats g')) = unat (lru_count (stats g)) + n_access trace"
    using replay_keeps_lru_inv [of g trace] assms by (auto simp: lru_inv_def)
  then show ?thesis
    using getData_tags_and_stamps [OF assms, of addr] by blast
qed

theorem access_keeps_tags_and_stamps_witness:
  "well_formed (start 1 2 1) \<and> no_dup_tags (start 1 2 1) \<and> clock_ahead (start 1 2 1) \<and>
   lru_count (stats (start 1 2 1)) \<noteq> ULONG_MAX \<and>
   (\<exists>g'. getData (start 1 2 1) 0 = Some g' \<and> no_dup_tags g' \<and> clock_ahead g' \<and>
      lru_count (stats g') = 1) \<and>
   unat (lru_count (stats (start 1 2 1))) +
     n_access [Matched (CHR ''L'') 0 1, Matched (CHR ''M'') 4 1] < 2 ^ 64 \<and>
   (\<exists>g'. runTraceSim (start 1 2 1) [Matched (CHR ''L'') 0 1, Matched (CHR ''M'') 4 1] = Some g' \<and>
      no_dup_tags g' \<and> clock_ahead g' \<and> unat (lru_count (stats g')) = 3)"
proof -
  have inv: "lru_inv (start 1 2 1)" by (rule start_lru_inv) simp_all
  then have nd: "no_dup_tags (start 1 2 1)" and ca: "clock_ahead (start 1 2 1)"
    by (simp_all add: lru_inv_def)
  have nw: "lru_count (stats (start 1 2 1)) \<noteq> ULONG_MAX"
    by (simp add: start_fields ULONG_MAX_def)
  have b: "unat (lru_count (stats (start 1 2 1))) +
     n_access [Matched (CHR ''L'') 0 1, Matched (CHR ''M'') 4 1] < 2 ^ 64"
    by (simp add: start_fields)
  note t = access_keeps_tags_and_stamps [OF start_1_2_1 nd, of 0
      "[Matched (CHR ''L'') 0 1, Matched (CHR ''M'') 4 1]"]
  have one: "\<exists>g'. getData (start 1 2 1) 0 = Some g' \<and> no_dup_tags g' \<and> clock_ahead g' \<and>
      lru_count (stats g') = 1"
    using t [THEN conjunct1] ca nw by (auto simp: start_fields)
  have two: "\<exists>g'. runTraceSim (start 1 2 1) [Matched (CHR ''L'') 0 1, Matched (CHR ''M'') 4 1] = Some g' \<and>
      no_dup_tags g' \<and> clock_ahead g' \<and> unat (lru_count (stats g')) = 3"
    using t [THEN conjunct2] ca b by (auto simp: start_fields)
  show ?thesis
    by (intro conjI start_1_2_1 nd ca nw one b two)
qed

subsection \<open>One set, more tags than lines\<close>

lemma set_of_single:
  assumes "well_formed g" and "idx_bits (args g) = 0"
  shows "set_of g addr = 0"
proof -
  have "set_of g addr < length (cache g)" by (rule set_of_less [OF assms(1)])
  moreover have "length (cache g) = 1"
    using assms by (simp add: well_formed_def)
  ultimately show ?thesis by simp
qed

lemma filled_nth:
  assumes "filled ts k g" and "k \<le> ways g"
  shows "j < k \<Longrightarrow> cache g ! 0 ! j = \<lparr>valid = True, tag = ts ! Suc j, lru = of_nat (Suc j)\<rparr>"
    and "k \<le> j \<Longrightarrow> j < ways g \<Longrightarrow> cache g ! 0 ! j = empty_line"
    and "length (cache g ! 0) = ways g"
  using assms by (simp_all add: filled_def nth_append)

lemma filled_update:
  assumes "k < n"
  shows "(map f [0..<k] @ replicate (n - k) e)[k := f k] = map f [0..<Suc k] @ replicate (n - Suc k) e"
proof -
  have "n - k = Suc (n - Suc k)" using assms by simp
  then show ?thesis by (simp add: list_update_append)
qed

lemma word64_of_nat_small:
  assumes "j < 2 ^ 31"
  shows "unat (of_nat j :: 64 word) = j"
proof -
  have "j < 2 ^ 64" using assms by (rule less_trans) simp
  then show ?thesis by (simp add: unat_of_nat)
qed

lemma fill_step:
  assumes wf: "well_formed g" and s0: "idx_bits (args g) = 0"
    and f: "filled ts k g" and k: "k < ways g"
    and tg: "tag_of g addr = ts ! Suc k"
    and d: "\<forall>j<k. ts ! Suc j \<noteq> ts ! Suc k"
  shows "\<exists>g'. getData g addr = Some g' \<and> well_formed g' \<and> args g' = args g \<and>
           num_sets g' = num_sets g \<and> filled ts (Suc k) g'"
proof -
  let ?S = "cache g ! 0"
  have si: "set_of g addr = 0" by (rule set_of_single [OF wf s0])
  have kn: "k \<le> ways g" using k by simp
  note nth = filled_nth [OF f kn]
  have small: "ways g < 2 ^ 31"
    using wf by (auto simp: well_formed_def ways_def)
  have nohit: "\<not> is_hit g addr"
    unfolding is_hit_iff si tg
  proof (intro notI, elim exE conjE)
    fix j assume j: "j < ways g" and v: "valid (?S ! j)" and t: "tag (?S ! j) = ts ! Suc k"
    show False
    proof (cases "j < k")
      case True
      with nth(1) [of j] t d show False by simp
    next
      case False
      with nth(2) [of j] j v show False by (simp add: empty_line_def)
    qed
  qed
  have pos: "0 < lru (?S ! j)" if "j < k" for j
  proof -
    have "Suc j < 2 ^ 31" using that k small by simp
    then have "unat (of_nat (Suc j) :: 64 word) = Suc j" by (rule word64_of_nat_small)
    then have "0 < unat (lru (?S ! j))" using nth(1) [OF that] by simp
    then show ?thesis by (simp add: word_less_nat_alt)
  qed
  have zero: "lru (?S ! k) = 0" using nth(2) [of k] k by (simp add: empty_line_def)
  have at: "evict_at (ways g) ?S = k"
    by (rule evict_at_unique [OF k]) (simp_all add: zero pos)
  have t: "touched g addr = k"
    using nohit by (simp add: touched_def is_hit_def si at)
  from getData_effect [OF wf, of addr] obtain g' where
    g': "getData g addr = Some g'" "well_formed g'" "args g' = args g" "num_sets g' = num_sets g"
      "cache g' = (cache g)[0 := ?S[k := \<lparr>valid = True, tag = ts ! Suc k, lru = lru_count (stats g)\<rparr>]]"
      "lru_count (stats g') = lru_count (stats g) + 1"
    unfolding si t tg by blast
  have w: "ways g' = ways g" using g'(3) by (simp add: ways_def)
  let ?f = "\<lambda>j. \<lparr>valid = True, tag = ts ! Suc j, lru = of_nat (Suc j)\<rparr>"
  from f have c: "cache g = [map ?f [0..<k] @ replicate (ways g - k) empty_line]"
    and clk: "lru_count (stats g) = of_nat (Suc k)"
    unfolding filled_def by (rule conjunct1, rule conjunct2)
  have "cache g' = [(map ?f [0..<k] @ replicate (ways g - k) empty_line)[k := ?f k]]"
    unfolding g'(5) clk c by simp
  then have c': "cache g' = [map ?f [0..<Suc k] @ replicate (ways g - Suc k) empty_line]"
    using filled_update [OF k, of ?f empty_line] by simp
  have clk': "lru_count (stats g') = of_nat (Suc (Suc k))"
    unfolding g'(6) clk by simp
  have "filled ts (Suc k) g'"
    unfolding filled_def w using c' clk' by (rule conjI)
  with g' show ?thesis by blast
qed

lemma replicate_update_0: "0 < n \<Longrightarrow> (replicate n e)[0 := x] = x # replicate (n - 1) e"
  by (cases n) simp_all

lemma first_access:
  assumes wf: "well_formed g" and s0: "idx_bits (args g) = 0"
    and c: "cache g = [replicate (ways g) empty_line]"
    and clk: "lru_count (stats g) = 0"
  shows "\<exists>g'. getData g addr = Some g' \<and> well_formed g' \<and> args g' = args g \<and>
           num_sets g' = num_sets g \<and> lru_count (stats g') = 1 \<and>
           cache g' = [\<lparr>valid = True, tag = tag_of g addr, lru = 0\<rparr> #
                       replicate (ways g - 1) empty_line]"
proof -
  have si: "set_of g addr = 0" by (rule set_of_single [OF wf s0])
  have n: "0 < ways g" by (rule well_formed_ways [OF wf])
  have nohit: "\<not> is_hit g addr"
    by (auto simp: is_hit_iff si c empty_line_def)
  have at: "evict_at (ways g) (cache g ! 0) = 0"
    by (rule evict_at_unique [OF n]) (simp_all add: c empty_line_def)
  have t: "touched g addr = 0"
    using nohit by (simp add: touched_def is_hit_def si at)
  from getData_effect [OF wf, of addr] obtain g' where
    g': "getData g addr = Some g'" "well_formed g'" "args g' = args g" "num_sets g' = num_sets g"
      "cache g' = (cache g)[0 := (cache g ! 0)[0 := \<lparr>valid = True, tag = tag_of g addr, lru = lru_count (stats g)\<rparr>]]"
      "lru_count (stats g') = lru_count (stats g) + 1"
    unfolding si t by blast
  have "cache g' = [\<lparr>valid = True, tag = tag_of g addr, lru = 0\<rparr> # replicate (ways g - 1) empty_line]"
    unfolding g'(5) clk c by (simp add: replicate_update_0 [OF n])
  with g' clk show ?thesis by simp
qed

lemma second_access:
  assumes wf: "well_formed g" and s0: "idx_bits (args g) = 0"
    and c: "cache g = [\<lparr>valid = True, tag = ts ! 0, lru = 0\<rparr> # replicate (ways g - 1) empty_line]"
    and clk: "lru_count (stats g) = 1"
    and tg: "tag_of g addr = ts ! Suc 0" and d: "ts ! 0 \<noteq> ts ! Suc 0"
  shows "\<exists>g'. getData g addr = Some g' \<and> well_formed g' \<and> args g' = args g \<and>
           num_sets g' = num_sets g \<and> filled ts (Suc 0) g'"
proof -
  have si: "set_of g addr = 0" by (rule set_of_single [OF wf s0])
  have n: "0 < ways g" by (rule well_formed_ways [OF wf])
  have nohit: "\<not> is_hit g addr"
    using d by (auto simp: is_hit_iff si c tg empty_line_def nth_Cons split: nat.splits)
  have at: "evict_at (ways g) (cache g ! 0) = 0"
    by (rule evict_at_unique [OF n]) (simp_all add: c)
  have t: "touched g addr = 0"
    using nohit by (simp add: touched_def is_hit_def si at)
  from getData_effect [OF wf, of addr] obtain g' where
    g': "getData g addr = Some g'" "well_formed g'" "args g' = args g" "num_sets g' = num_sets g"
      "cache g' = (cache g)[0 := (cache g ! 0)[0 := \<lparr>valid = True, tag = tag_of g addr, lru = lru_count (stats g)\<rparr>]]"
      "lru_count (stats g') = lru_count (stats g) + 1"
    unfolding si t by blast
  have w: "ways g' = ways g" using g'(3) by (simp add: ways_def)
  have "filled ts (Suc 0) g'"
    unfolding filled_def w g'(5,6) clk c tg by simp
  with g' show ?thesis by blast
qed

lemma final_access:
  assumes wf: "well_formed g" and s0: "idx_bits (args g) = 0"
    and f: "filled ts (ways g) g"
    and tg: "tag_of g addr = ts ! 0"
    and d: "\<forall>j<ways g. ts ! Suc j \<noteq> ts ! 0"
  shows "outcome g addr = MissWithEvict \<and> touched g addr = 0 \<and>
         cache g ! 0 ! 0 = \<lparr>valid = True, tag = ts ! Suc 0, lru = 1\<rparr> \<and>
         (\<forall>j<ways g. lru (cache g ! 0 ! 0) \<le> lru (cache g ! 0 ! j))"
proof -
  let ?S = "cache g ! 0"
  have si: "set_of g addr = 0" by (rule set_of_single [OF wf s0])
  have n: "0 < ways g" by (rule well_formed_ways [OF wf])
  note nth = filled_nth(1) [OF f order_refl]
  have small: "ways g < 2 ^ 31"
    using wf by (auto simp: well_formed_def ways_def)
  have nohit: "\<not> is_hit g addr"
    unfolding is_hit_iff si tg using nth d by auto
  have l0: "?S ! 0 = \<lparr>valid = True, tag = ts ! Suc 0, lru = 1\<rparr>"
    using nth [OF n] by simp
  have le: "lru (?S ! 0) \<le> lru (?S ! j)" if "j < ways g" for j
  proof -
    have "Suc j < 2 ^ 31" using that small by simp
    then have "unat (of_nat (Suc j) :: 64 word) = Suc j" by (rule word64_of_nat_small)
    then have "1 \<le> unat (lru (?S ! j))" using nth [OF that] by simp
    then show ?thesis by (simp add: l0 word_le_nat_alt)
  qed
  have at: "evict_at (ways g) ?S = 0"
    by (rule evict_at_unique [OF n]) (simp_all add: le)
  have t: "touched g addr = 0"
    using nohit by (simp add: touched_def is_hit_def si at)
  have "outcome g addr = MissWithEvict"
    using nohit by (simp add: outcome_def si t l0)
  with t l0 le show ?thesis by simp
qed

lemma same_tag_of: "args g' = args g \<Longrightarrow> tag_of g' = tag_of g"
  by (rule ext) (simp add: tag_of_def)

lemma fill_run:
  assumes "well_formed g" and "idx_bits (args g) = 0" and "filled ts k g" and "k \<le> ways g"
    and "distinct ts" and "length ts = Suc (ways g)"
    and "drop (Suc k) ts = map (tag_of g) rest"
  shows "\<exists>g'. runTraceSim g (map (\<lambda>a. Matched (CHR ''L'') a sz) rest) = Some g' \<and>
           well_formed g' \<and> args g' = args g \<and> num_sets g' = num_sets g \<and>
           filled ts (ways g) g'"
  using assms
proof (induction rest arbitrary: k g)
  case Nil
  then have "k = ways g" by simp
  with Nil show ?case by simp
next
  case (Cons a rest)
  from Cons.prems(7) have k: "k < ways g"
    using Cons.prems(6) by (cases "k < ways g") simp_all
  have tg: "tag_of g a = ts ! Suc k"
    using nth_via_drop [of "Suc k" ts "tag_of g a" "map (tag_of g) rest"] Cons.prems(7) by simp
  have d: "\<forall>j<k. ts ! Suc j \<noteq> ts ! Suc k"
    using k Cons.prems(5,6) by (simp add: nth_eq_iff_index_eq)
  from fill_step [OF Cons.prems(1,2,3) k tg d] obtain g1 where
    g1: "getData g a = Some g1" "well_formed g1" "args g1 = args g" "num_sets g1 = num_sets g"
      "filled ts (Suc k) g1"
    by blast
  have w: "ways g1 = ways g" using g1(3) by (simp add: ways_def)
  have "drop (Suc (Suc k)) ts = tl (drop (Suc k) ts)"
    by (simp add: drop_Suc tl_drop)
  then have dr: "drop (Suc (Suc k)) ts = map (tag_of g1) rest"
    using Cons.prems(7) by (simp add: same_tag_of [OF g1(3)])
  have "\<exists>g'. runTraceSim g1 (map (\<lambda>a. Matched (CHR ''L'') a sz) rest) = Some g' \<and>
           well_formed g' \<and> args g' = args g1 \<and> num_sets g' = num_sets g1 \<and>
           filled ts (ways g1) g'"
    by (rule Cons.IH [OF g1(2) _ g1(5) _ Cons.prems(5) _ dr])
      (use k w g1(3) Cons.prems(2,6) in simp_all)
  then show ?case
    using g1 w by (simp add: switch_op_def)
qed

text \<open>
  C1, as stated, fails. One set of two lines (\<^verbatim>\<open>idx_bits\<close> 0, \<^verbatim>\<open>assoc\<close> 2,
  \<^verbatim>\<open>block_bits\<close> 1), the addresses 0, 2, 4 with tags 0, 1, 2 accessed in order: when
  address 0 is accessed again no line holds its tag 0 any more. The access is a miss with
  eviction, and the line it evicts, line 0, holds tag 1, the tag of the second address; after
  it the line holds tag 0.
\<close>

theorem lru_single_set_counterexample:
  "runTraceSim (start 0 2 1)
     [Matched (CHR ''L'') 0 1, Matched (CHR ''L'') 2 1, Matched (CHR ''L'') 4 1] =
     Some \<lparr>cache = [[\<lparr>valid = True, tag = 1, lru = 1\<rparr>, \<lparr>valid = True, tag = 2, lru = 2\<rparr>]],
           args = \<lparr>verbose = 0, idx_bits = 0, assoc = 2, block_bits = 1\<rparr>,
           stats = \<lparr>hits = 0, misses = 3, evictions = 1, lru_count = 3\<rparr>,
           num_sets = 1, block_size = 2, t_addr = None\<rparr> \<and>
   tag_of (start 0 2 1) 0 = 0 \<and>
   outcome \<lparr>cache = [[\<lparr>valid = True, tag = 1, lru = 1\<rparr>, \<lparr>valid = True, tag = 2, lru = 2\<rparr>]],
           args = \<lparr>verbose = 0, idx_bits = 0, assoc = 2, block_bits = 1\<rparr>,
           stats = \<lparr>hits = 0, misses = 3, evictions = 1, lru_count = 3\<rparr>,
           num_sets = 1, block_size = 2, t_addr = None\<rparr> 0 = MissWithEvict \<and>
   touched \<lparr>cache = [[\<lparr>valid = True, tag = 1, lru = 1\<rparr>, \<lparr>valid = True, tag = 2, lru = 2\<rparr>]],
           args = \<lparr>verbose = 0, idx_bits = 0, assoc = 2, block_bits = 1\<rparr>,
           stats = \<lparr>hits = 0, misses = 3, evictions = 1, lru_count = 3\<rparr>,
           num_sets = 1, block_size = 2, t_addr = None\<rparr> 0 = 0 \<and>
   getData \<lparr>cache = [[\<lparr>valid = True, tag = 1, lru = 1\<rparr>, \<lparr>valid = True, tag = 2, lru = 2\<rparr>]],
           args = \<lparr>verbose = 0, idx_bits = 0, assoc = 2, block_bits = 1\<rparr>,
           stats = \<lparr>hits = 0, misses = 3, evictions = 1, lru_count = 3\<rparr>,
           num_sets = 1, block_size = 2, t_addr = None\<rparr> 0 =
     Some \<lparr>cache = [[\<lparr>valid = True, tag = 0, lru = 3\<rparr>, \<lparr>valid = True, tag = 2, lru = 2\<rparr>]],
           args = \<lparr>verbose = 0, idx_bits = 0, assoc = 2, block_bits = 1\<rparr>,
           stats = \<lparr>hits = 0, misses = 4, evictions = 2, lru_count = 4\<rparr>,
           num_sets = 1, block_size = 2, t_addr = None\<rparr>"
  by code_simp

text \<open>
  C1, amended. One set of \<open>e\<close> lines, from the initial state, and \<open>e + 1\<close> addresses
  with pairwise distinct tags accessed in order. All the accesses return, and accessing the
  first address again is a miss with eviction: it returns and adds 1 to \<^verbatim>\<open>misses\<close> and
  to \<^verbatim>\<open>evictions\<close>. The line evicted is line 0, which is valid and holds the tag of the
  second address; its \<^verbatim>\<open>lru\<close> is the least of the set; and this line is the only one
  the access changes.
\<close>

theorem lru_single_set:
  assumes "0 < e" "e \<le> 2147483647" "0 \<le> b" "b < 64"
    and "length as = nat e + 1"
    and "distinct (map (tag_of (start 0 e b)) as)"
  shows "\<exists>g. runTraceSim (start 0 e b) (map (\<lambda>a. Matched (CHR ''L'') a sz) as) = Some g \<and>
           outcome g (as ! 0) = MissWithEvict \<and>
           set_of g (as ! 0) = 0 \<and> touched g (as ! 0) = 0 \<and>
           cache g ! 0 ! 0 = \<lparr>valid = True, tag = tag_of (start 0 e b) (as ! 1), lru = 1\<rparr> \<and>
           (\<forall>j<nat e. lru (cache g ! 0 ! 0) \<le> lru (cache g ! 0 ! j)) \<and>
           (\<exists>g'. getData g (as ! 0) = Some g' \<and>
              updated_as MissWithEvict (stats g) (stats g') \<and>
              cache g' = (cache g)[0 := (cache g ! 0)
                [0 := \<lparr>valid = True, tag = tag_of (start 0 e b) (as ! 0),
                       lru = lru_count (stats g)\<rparr>]])"
proof -
  let ?g0 = "start 0 e b" and ?ts = "map (tag_of (start 0 e b)) as"
  let ?L = "\<lambda>a. Matched (CHR ''L'') a sz"
  have wf0: "well_formed ?g0" by (rule start_well_formed) (use assms in simp_all)
  have s0: "idx_bits (args ?g0) = 0" by (simp add: start_fields)
  have w0: "ways ?g0 = nat e" by (simp add: ways_def start_fields)
  have c0: "cache ?g0 = [replicate (ways ?g0) empty_line]" by (simp add: start_fields w0)
  have k0: "lru_count (stats ?g0) = 0" by (simp add: start_fields)
  from assms(1,5) obtain a0 a1 rest where as: "as = a0 # a1 # rest"
    by (cases as; cases "tl as") auto
  have len: "length ?ts = Suc (ways ?g0)" using assms(5) by (simp add: w0)
  have dist: "distinct ?ts" by (rule assms(6))
  from first_access [OF wf0 s0 c0 k0, of a0] obtain g1 where
    g1: "getData ?g0 a0 = Some g1" "well_formed g1" "args g1 = args ?g0" "num_sets g1 = num_sets ?g0"
      "lru_count (stats g1) = 1"
      "cache g1 = [\<lparr>valid = True, tag = tag_of ?g0 a0, lru = 0\<rparr> # replicate (ways ?g0 - 1) empty_line]"
    by blast
  have w1: "ways g1 = ways ?g0" using g1(3) by (simp add: ways_def)
  have t1: "tag_of g1 = tag_of ?g0" by (rule same_tag_of [OF g1(3)])
  have c1: "cache g1 = [\<lparr>valid = True, tag = ?ts ! 0, lru = 0\<rparr> # replicate (ways g1 - 1) empty_line]"
    using g1(6) by (simp add: as w1)
  have "?ts ! 0 \<noteq> ?ts ! Suc 0" using dist by (simp add: as)
  from second_access [OF g1(2) _ c1 g1(5) _ this, of a1] obtain g2 where
    g2: "getData g1 a1 = Some g2" "well_formed g2" "args g2 = args g1" "num_sets g2 = num_sets g1"
      "filled ?ts (Suc 0) g2"
    by (auto simp: g1(3) s0 t1 as)
  have w2: "ways g2 = ways ?g0" using g2(3) g1(3) by (simp add: ways_def)
  have t2: "tag_of g2 = tag_of ?g0" using same_tag_of [OF g2(3)] t1 by simp
  have "\<exists>g. runTraceSim g2 (map ?L rest) = Some g \<and> well_formed g \<and> args g = args g2 \<and>
      num_sets g = num_sets g2 \<and> filled ?ts (ways g2) g"
    by (rule fill_run [OF g2(2) _ g2(5) _ dist])
      (use g2(3) g1(3) s0 w2 len t2 well_formed_ways [OF wf0] in \<open>simp_all add: as\<close>)
  then obtain g where
    g: "runTraceSim g2 (map ?L rest) = Some g" "well_formed g" "args g = args g2"
      "filled ?ts (ways g2) g"
    by blast
  have ag: "args g = args ?g0" using g(3) g2(3) g1(3) by simp
  have wg: "ways g = nat e" using ag by (simp add: ways_def start_fields)
  have tg: "tag_of g = tag_of ?g0" by (rule same_tag_of [OF ag])
  have run: "runTraceSim ?g0 (map ?L as) = Some g"
    by (simp add: as switch_op_def g1(1) g2(1) g(1))
  have sg: "idx_bits (args g) = 0" using ag s0 by simp
  have fg: "filled ?ts (ways g) g" using g(4) w2 wg w0 by simp
  have dg: "\<forall>j<ways g. ?ts ! Suc j \<noteq> ?ts ! 0"
  proof (intro allI impI)
    fix j assume "j < ways g"
    then have "Suc j < length ?ts" "0 < length ?ts" using len wg w0 by simp_all
    from nth_eq_iff_index_eq [OF dist this] show "?ts ! Suc j \<noteq> ?ts ! 0" by simp
  qed
  have tg0: "tag_of g (as ! 0) = ?ts ! 0" by (simp add: tg as)
  from final_access [OF g(2) sg fg tg0 dg] have
    fin: "outcome g (as ! 0) = MissWithEvict" "touched g (as ! 0) = 0"
      "cache g ! 0 ! 0 = \<lparr>valid = True, tag = ?ts ! Suc 0, lru = 1\<rparr>"
      "\<forall>j<ways g. lru (cache g ! 0 ! 0) \<le> lru (cache g ! 0 ! j)"
    by blast+
  have si: "set_of g (as ! 0) = 0" by (rule set_of_single [OF g(2) sg])
  from getData_outcome [OF g(2), of "as ! 0"] obtain g' where
    g': "getData g (as ! 0) = Some g'" "updated_as MissWithEvict (stats g) (stats g')"
    unfolding fin(1) by blast
  from getData_effect [OF g(2), of "as ! 0"] g'(1) have
    c': "cache g' = (cache g)[0 := (cache g ! 0)
       [0 := \<lparr>valid = True, tag = tag_of ?g0 (as ! 0), lru = lru_count (stats g)\<rparr>]]"
    by (simp add: si fin(2) tg)
  have l0: "cache g ! 0 ! 0 = \<lparr>valid = True, tag = tag_of ?g0 (as ! 1), lru = 1\<rparr>"
    using fin(3) by (simp add: as)
  show ?thesis
    using run fin(1,2) si l0 fin(4) g' c' unfolding wg by blast
qed

theorem lru_single_set_witness:
  "distinct (map (tag_of (start 0 2 1)) [0, 2, 4]) \<and>
   (\<exists>g. runTraceSim (start 0 2 1)
           [Matched (CHR ''L'') 0 1, Matched (CHR ''L'') 2 1, Matched (CHR ''L'') 4 1] = Some g \<and>
      outcome g 0 = MissWithEvict \<and> touched g 0 = 0 \<and>
      cache g ! 0 ! 0 = \<lparr>valid = True, tag = 1, lru = 1\<rparr> \<and>
      (\<exists>g'. getData g 0 = Some g' \<and> updated_as MissWithEvict (stats g) (stats g')))"
proof -
  have t: "tag_of (start 0 2 1) 0 = 0" "tag_of (start 0 2 1) 2 = 1" "tag_of (start 0 2 1) 4 = 2"
    by (simp_all add: tag_of_def start_fields drop_bit_eq_div)
  have d: "distinct (map (tag_of (start 0 2 1)) [0, 2, 4])"
    by (simp add: t)
  have l: "length [0, 2, 4 :: addr_t] = nat 2 + 1" by simp
  from lru_single_set [of 2 1 "[0, 2, 4]" 1, OF _ _ _ _ l d]
  have "\<exists>g. runTraceSim (start 0 2 1)
           [Matched (CHR ''L'') 0 1, Matched (CHR ''L'') 2 1, Matched (CHR ''L'') 4 1] = Some g \<and>
      outcome g 0 = MissWithEvict \<and> touched g 0 = 0 \<and>
      cache g ! 0 ! 0 = \<lparr>valid = True, tag = 1, lru = 1\<rparr> \<and>
      (\<exists>g'. getData g 0 = Some g' \<and> updated_as MissWithEvict (stats g) (stats g'))"
    by (simp add: t) blast
  with d show ?thesis by (rule conjI)
qed

end
